theory Spec2Isabelle
  imports Complex_Main
begin

section \<open>threadcopy: constants of the source\<close>

text \<open>
  Exit codes and thread states are \<^verbatim>\<open>#define\<close>d integers in \<^verbatim>\<open>threadcopy.c\<close>; they stay
  integers here, under their own names.
\<close>

abbreviation EXIT_OK :: int where "EXIT_OK \<equiv> 0"
abbreviation READ_ERROR :: int where "READ_ERROR \<equiv> 1"
abbreviation WRITE_ERROR :: int where "WRITE_ERROR \<equiv> 2"
abbreviation VERIFY_ERROR :: int where "VERIFY_ERROR \<equiv> 3"
abbreviation ARG_ERROR :: int where "ARG_ERROR \<equiv> 4"

abbreviation TS_INIT :: int where "TS_INIT \<equiv> 0"
abbreviation TS_RUNNING :: int where "TS_RUNNING \<equiv> 1"
abbreviation TS_DONE :: int where "TS_DONE \<equiv> 2"
abbreviation TS_CHECKED :: int where "TS_CHECKED \<equiv> 3"

definition BLOCKSIZE :: nat where "BLOCKSIZE = 4096"
definition PATH_MAX :: nat where "PATH_MAX = 1024"
definition FILES_MAX :: nat where "FILES_MAX = 10000"

abbreviation DELIMITER :: char where "DELIMITER \<equiv> CHR ''|''"

section \<open>The filename-list tokenizer\<close>

text \<open>
  The tables \<^verbatim>\<open>ifiles\<close> and \<^verbatim>\<open>ofiles\<close> are \<^verbatim>\<open>char [FILES_MAX][PATH_MAX]\<close>, cleared at the
  start of \<^verbatim>\<open>main\<close>. A table is a function from the row index to the C string the row
  holds; every access of the source stays below \<^verbatim>\<open>FILES_MAX\<close>.

  \<^verbatim>\<open>strncpy (row, s, PATH_MAX)\<close> keeps the first \<^verbatim>\<open>PATH_MAX\<close> characters. (A longer name leaves
  the row without its terminator in C; the model keeps the characters of the row.)
\<close>

type_synonym names = "nat \<Rightarrow> string"

definition strncpy_row :: "string \<Rightarrow> string" where
  "strncpy_row s = take PATH_MAX s"

text \<open>
  \<^verbatim>\<open>strtok_r\<close> with the one-character delimiter set: skip leading delimiters; at the end of
  the string there is no token; otherwise the token runs to the next delimiter, and the
  saved position is just behind that delimiter. The argument is the text still to scan
  (the first call's string, later the saved position).
\<close>

definition strtok_r :: "string \<Rightarrow> (string \<times> string) option" where
  "strtok_r s =
     (let s1 = dropWhile (\<lambda>c. c = DELIMITER) s in
      if s1 = [] then None
      else Some (takeWhile (\<lambda>c. c \<noteq> DELIMITER) s1,
                 drop 1 (dropWhile (\<lambda>c. c \<noteq> DELIMITER) s1)))"

text \<open>
  The \<^verbatim>\<open>for\<close> loop of \<^verbatim>\<open>get_filenames\<close>, from index \<open>i\<close>: it returns the value \<^verbatim>\<open>numf\<close> has
  when the loop is left (\<open>i\<close> at the \<^verbatim>\<open>break\<close>, the initial \<open>0\<close> when \<open>i\<close> reaches
  \<^verbatim>\<open>FILES_MAX\<close>) and the table.
\<close>

function tok_loop :: "nat \<Rightarrow> string \<Rightarrow> names \<Rightarrow> nat \<times> names" where
  "tok_loop i rest fn =
     (if i < FILES_MAX then
        (case strtok_r rest of
           None \<Rightarrow> (i, fn)
         | Some (token, rest') \<Rightarrow> tok_loop (i + 1) rest' (fn(i := strncpy_row token)))
      else (0, fn))"
  by pat_completeness auto
termination
  by (relation "measure (\<lambda>(i, rest, fn). FILES_MAX - i)") auto

declare tok_loop.simps [simp del]

definition get_filenames :: "string \<Rightarrow> names \<Rightarrow> nat \<times> names" where
  "get_filenames farg fn =
     (if length farg > 0 then
        (if DELIMITER \<notin> set farg then (1, fn(0 := strncpy_row farg))
         else (let (numf, fn') = tok_loop 0 farg fn in
               (if numf > 0 then numf - 1 else numf, fn')))
      else (0, fn))"

text \<open>
  The tokens of an argument string, as \<^verbatim>\<open>strtok_r\<close> delivers them one after the other
  (the non-empty pieces between delimiters). This is the yardstick the count returned
  by \<open>get_filenames\<close> is compared with.
\<close>

function tokens :: "string \<Rightarrow> string list" where
  "tokens s = (case strtok_r s of None \<Rightarrow> [] | Some (token, rest') \<Rightarrow> token # tokens rest')"
  by pat_completeness auto
termination
proof (relation "measure length", goal_cases)
  case 1
  show ?case by simp
next
  case (2 s x token rest')
  let ?s1 = "dropWhile (\<lambda>c. c = DELIMITER) s"
  from 2 have ne: "?s1 \<noteq> []"
    and rest: "rest' = drop 1 (dropWhile (\<lambda>c. c \<noteq> DELIMITER) ?s1)"
    by (auto simp: strtok_r_def Let_def split: if_splits)
  from ne have "hd ?s1 \<noteq> DELIMITER"
    using hd_dropWhile [of "\<lambda>c. c = DELIMITER" s] by simp
  with ne have "length (dropWhile (\<lambda>c. c \<noteq> DELIMITER) ?s1) < length ?s1"
    by (cases ?s1) (auto simp: less_Suc_eq_le length_dropWhile_le)
  moreover have "length ?s1 \<le> length s"
    by (rule length_dropWhile_le)
  ultimately show ?case
    using rest by simp
qed

declare tokens.simps [simp del]

section \<open>Files and streams\<close>

text \<open>
  The file system a worker runs on: the readable files by path, the paths that cannot be
  opened for writing, and for some paths the number of bytes the device accepts before
  \<^verbatim>\<open>fwrite\<close> comes back short. A file is its bytes and, when the device is faulty, the
  offset at which reading fails.
\<close>

record diskfile =
  content :: string
  rd_fail :: "nat option"

record fsys =
  files :: "(string \<times> diskfile) list"
  unwritable :: "string list"
  wr_limit :: "(string \<times> nat) list"

definition fs_lookup :: "fsys \<Rightarrow> string \<Rightarrow> diskfile option" where
  "fs_lookup fs p = map_of (files fs) p"

definition fs_store :: "string \<Rightarrow> diskfile \<Rightarrow> fsys \<Rightarrow> fsys" where
  "fs_store p f fs = fs\<lparr>files := (p, f) # filter (\<lambda>e. fst e \<noteq> p) (files fs)\<rparr>"

definition fs_remove :: "string \<Rightarrow> fsys \<Rightarrow> fsys" where
  "fs_remove p fs = fs\<lparr>files := filter (\<lambda>e. fst e \<noteq> p) (files fs)\<rparr>"

text \<open>
  What other writers (other workers of the same run, other processes) do to the files
  between a worker's transfer and its verification: a list of replacements and removals.
\<close>

fun fs_change :: "fsys \<Rightarrow> string \<times> diskfile option \<Rightarrow> fsys" where
  "fs_change fs (p, Some f) = fs_store p f fs"
| "fs_change fs (p, None) = fs_remove p fs"

definition fs_changes :: "(string \<times> diskfile option) list \<Rightarrow> fsys \<Rightarrow> fsys" where
  "fs_changes cs fs = foldl fs_change fs cs"

text \<open>
  A stream open for reading: the bytes not yet delivered, the number of bytes that can
  still be delivered before a read fails (if the device fails at all), and the
  end-of-file indicator that \<^verbatim>\<open>feof\<close> tests.

  \<^verbatim>\<open>fread (buf, 1, n, stream)\<close> delivers up to \<open>n\<close> bytes. A read that would pass the
  failure offset delivers the bytes before it and sets no end-of-file indicator; every
  later read fails at once. A read that finds fewer than \<open>n\<close> bytes left sets the
  end-of-file indicator.
\<close>

record rstream =
  rest :: string
  fail_in :: "nat option"
  at_eof :: bool

definition fopen_r :: "fsys \<Rightarrow> string \<Rightarrow> rstream option" where
  "fopen_r fs p =
     (case fs_lookup fs p of
        None \<Rightarrow> None
      | Some f \<Rightarrow> Some \<lparr>rest = content f, fail_in = rd_fail f, at_eof = False\<rparr>)"

definition fread_ok :: "nat \<Rightarrow> rstream \<Rightarrow> string \<times> rstream" where
  "fread_ok n s =
     (take n (rest s),
      s\<lparr>rest := drop n (rest s),
        fail_in := map_option (\<lambda>k. k - min n (length (rest s))) (fail_in s),
        at_eof := (at_eof s \<or> length (rest s) < n)\<rparr>)"

definition fread :: "nat \<Rightarrow> rstream \<Rightarrow> string \<times> rstream" where
  "fread n s =
     (case fail_in s of
        None \<Rightarrow> fread_ok n s
      | Some k \<Rightarrow>
          if k < n \<and> k \<le> length (rest s)
          then (take k (rest s), s\<lparr>rest := drop k (rest s), fail_in := Some 0\<rparr>)
          else fread_ok n s)"

definition feof :: "rstream \<Rightarrow> bool" where
  "feof s = at_eof s"

text \<open>\<^verbatim>\<open>check_file_size\<close>: seek to the end, \<^verbatim>\<open>ftell\<close>, seek back.\<close>

definition check_file_size :: "rstream \<Rightarrow> nat" where
  "check_file_size fp = length (rest fp)"

text \<open>
  A stream open for writing: its path, the bytes written so far, the device's limit, and
  the number of \<^verbatim>\<open>fwrite\<close> calls made on it. \<^verbatim>\<open>fopen (p, "w")\<close> truncates the file.
  \<^verbatim>\<open>fwrite\<close> returns the number of bytes it wrote.
\<close>

record wstream =
  wpath :: string
  written :: string
  wlimit :: "nat option"
  wcalls :: nat

definition empty_file :: diskfile where
  "empty_file = \<lparr>content = [], rd_fail = None\<rparr>"

definition fopen_w :: "fsys \<Rightarrow> string \<Rightarrow> (wstream \<times> fsys) option" where
  "fopen_w fs p =
     (if p \<in> set (unwritable fs) then None
      else Some (\<lparr>wpath = p, written = [], wlimit = map_of (wr_limit fs) p, wcalls = 0\<rparr>,
                 fs_store p empty_file fs))"

definition fwrite :: "string \<Rightarrow> wstream \<Rightarrow> nat \<times> wstream" where
  "fwrite buf w =
     (let n = (case wlimit w of
                 None \<Rightarrow> length buf
               | Some c \<Rightarrow> min (length buf) (c - length (written w)))
      in (n, w\<lparr>written := written w @ take n buf, wcalls := wcalls w + 1\<rparr>))"

definition fclose_w :: "wstream \<Rightarrow> fsys \<Rightarrow> fsys" where
  "fclose_w w fs = fs_store (wpath w) \<lparr>content = written w, rd_fail = None\<rparr> fs"

section \<open>The copy worker\<close>

text \<open>
  \<^verbatim>\<open>struct Filedata\<close>. The two \<^verbatim>\<open>double\<close> fields are real numbers here: the model computes
  the quotient exactly where the machine rounds it.
\<close>

record filedata =
  input_name :: string
  output_name :: string
  size_fd :: nat
  time_usec :: real
  time_sec :: real
  result :: int
  status :: int
  verify :: int

record timeval =
  tv_sec :: int
  tv_usec :: int

text \<open>
  What a worker meets: the file system when it starts, what happens to the files between
  its transfer and its verification, and the wall clock at its start and at its exit.
\<close>

record wenv =
  wfs :: fsys
  between :: "(string \<times> diskfile option) list"
  t_start :: timeval
  t_exit :: timeval

text \<open>
  The worker's stores to its task record, in program order. The record other threads
  see after some of them is the fold of \<open>fd_store\<close> over that prefix.
\<close>

datatype fdwrite =
    Set_time_usec real
  | Set_time_sec real
  | Set_status int
  | Set_result int

fun fd_store :: "filedata \<Rightarrow> fdwrite \<Rightarrow> filedata" where
  "fd_store fd (Set_time_usec x) = fd\<lparr>time_usec := x\<rparr>"
| "fd_store fd (Set_time_sec x) = fd\<lparr>time_sec := x\<rparr>"
| "fd_store fd (Set_status x) = fd\<lparr>status := x\<rparr>"
| "fd_store fd (Set_result x) = fd\<lparr>result := x\<rparr>"

text \<open>
  The comparison loop over the two buffers, \<^verbatim>\<open>for (i = 0; i < bytes_read; i++)\<close>: is there
  an index where they differ? It runs only on buffers of the same length.
\<close>

fun buffers_differ :: "string \<Rightarrow> string \<Rightarrow> bool" where
  "buffers_differ (a # as) (b # bs) = (a \<noteq> b \<or> buffers_differ as bs)"
| "buffers_differ _ _ = False"

text \<open>
  The transfer loop, \<^verbatim>\<open>while (!feof (infile))\<close>. It ends with \<open>None\<close> when the input is at
  its end and with the error code of the exit it takes otherwise.
\<close>

function copy_loop :: "rstream \<Rightarrow> wstream \<Rightarrow> int option \<times> rstream \<times> wstream" where
  "copy_loop infile outfile =
     (if feof infile then (None, infile, outfile)
      else
        (case fread BLOCKSIZE infile of
           (ibuffer, infile') \<Rightarrow>
             if length ibuffer \<le> 0 then
               (if feof infile' then (None, infile', outfile)
                else (Some READ_ERROR, infile', outfile))
             else
               (case fwrite ibuffer outfile of
                  (n, outfile') \<Rightarrow>
                    if n \<noteq> length ibuffer then (Some WRITE_ERROR, infile', outfile')
                    else copy_loop infile' outfile')))"
  by pat_completeness auto
termination
proof (relation "measure (\<lambda>(infile, outfile). length (rest infile))", goal_cases)
  case 1
  show ?case by simp
next
  case (2 infile outfile x1 x2 y1 y2)
  then have "fread BLOCKSIZE infile = (x1, x2)" and "x1 \<noteq> []"
    by auto
  then have "length (rest x2) < length (rest infile)"
    by (auto simp: fread_def fread_ok_def BLOCKSIZE_def split: option.splits if_splits)
  then show ?case by simp
qed

declare copy_loop.simps [simp del]

text \<open>The verification loop, with the same shape.\<close>

function verify_loop :: "rstream \<Rightarrow> rstream \<Rightarrow> int option" where
  "verify_loop infile outfile =
     (if feof infile then None
      else
        (case fread BLOCKSIZE infile of
           (ibuffer, infile') \<Rightarrow>
             if length ibuffer \<le> 0 then
               (if feof infile' then None else Some READ_ERROR)
             else
               (case fread (length ibuffer) outfile of
                  (obuffer, outfile') \<Rightarrow>
                    if length obuffer \<noteq> length ibuffer then Some READ_ERROR
                    else if buffers_differ ibuffer obuffer then Some VERIFY_ERROR
                    else verify_loop infile' outfile')))"
  by pat_completeness auto
termination
proof (relation "measure (\<lambda>(infile, outfile). length (rest infile))", goal_cases)
  case 1
  show ?case by simp
next
  case (2 infile outfile x1 x2 y1 y2)
  then have "fread BLOCKSIZE infile = (x1, x2)" and "x1 \<noteq> []"
    by auto
  then have "length (rest x2) < length (rest infile)"
    by (auto simp: fread_def fread_ok_def BLOCKSIZE_def split: option.splits if_splits)
  then show ?case by simp
qed

declare verify_loop.simps [simp del]

text \<open>
  Steps 1 to 4 of \<^verbatim>\<open>copyFile\<close>: open the input, open (and truncate) the output, run the
  transfer loop, close both. The result is the error code of the exit taken (\<open>None\<close> when
  the transfer went through), the file system left behind and the number of \<^verbatim>\<open>fwrite\<close>
  calls. When the output path is the input path, the truncation empties the file under
  the stream already open for reading.
\<close>

definition transfer :: "fsys \<Rightarrow> filedata \<Rightarrow> int option \<times> fsys \<times> nat" where
  "transfer fs fd =
     (case fopen_r fs (input_name fd) of
        None \<Rightarrow> (Some READ_ERROR, fs, 0)
      | Some infile \<Rightarrow>
          (case fopen_w fs (output_name fd) of
             None \<Rightarrow> (Some WRITE_ERROR, fs, 0)
           | Some (outfile, fs1) \<Rightarrow>
               (case copy_loop
                       (if output_name fd = input_name fd then infile\<lparr>rest := []\<rparr> else infile)
                       outfile of
                  (err, infile', outfile') \<Rightarrow>
                    (err, fclose_w outfile' fs1, wcalls outfile'))))"

text \<open>Step 5: reopen both paths for reading and compare them block by block.\<close>

definition verification :: "fsys \<Rightarrow> filedata \<Rightarrow> int option" where
  "verification fs fd =
     (case fopen_r fs (input_name fd) of
        None \<Rightarrow> Some READ_ERROR
      | Some infile \<Rightarrow>
          (case fopen_r fs (output_name fd) of
             None \<Rightarrow> Some READ_ERROR
           | Some outfile \<Rightarrow> verify_loop infile outfile))"

text \<open>
  \<^verbatim>\<open>copyFile\<close>. Every error exit of the source is the same two stores, the status and then
  the result, followed by \<^verbatim>\<open>pthread_exit\<close>; the last exit stores the status, the result and
  the two time fields.
\<close>

record wout =
  writes :: "fdwrite list"
  fs_after :: fsys
  fwrite_calls :: nat

definition error_exit :: "int \<Rightarrow> fsys \<Rightarrow> nat \<Rightarrow> wout" where
  "error_exit err fs n =
     \<lparr>writes = [Set_time_usec 0, Set_time_sec 0, Set_status TS_DONE, Set_result err],
      fs_after = fs, fwrite_calls = n\<rparr>"

definition copyFile_run :: "wenv \<Rightarrow> filedata \<Rightarrow> wout" where
  "copyFile_run e fd =
     (case transfer (wfs e) fd of
        (Some err, fs1, n) \<Rightarrow> error_exit err fs1 n
      | (None, fs1, n) \<Rightarrow>
          (let fs2 = (if verify fd \<noteq> 0 then fs_changes (between e) fs1 else fs1) in
           case (if verify fd \<noteq> 0 then verification fs2 fd else None) of
             Some err \<Rightarrow> error_exit err fs2 n
           | None \<Rightarrow>
               \<lparr>writes =
                  [Set_time_usec 0, Set_time_sec 0, Set_status TS_DONE, Set_result EXIT_OK,
                   Set_time_usec (real_of_int (tv_usec (t_exit e) - tv_usec (t_start e)) / 1000000),
                   Set_time_sec (real_of_int (tv_sec (t_exit e) - tv_sec (t_start e)))],
                fs_after = fs2, fwrite_calls = n\<rparr>))"

definition copyFile :: "wenv \<Rightarrow> filedata \<Rightarrow> filedata" where
  "copyFile e fd = foldl fd_store fd (writes (copyFile_run e fd))"

section \<open>The orchestrator\<close>

text \<open>
  The options as \<^verbatim>\<open>getopt\<close> hands them to the \<^verbatim>\<open>switch\<close>, one after the other;
  \<open>Opt_unknown\<close> is its \<^verbatim>\<open>'?'\<close>. The flags are only ever set, so they are booleans.
\<close>

datatype opt = Opt_d | Opt_h | Opt_i string | Opt_o string | Opt_q | Opt_v | Opt_unknown

record flags =
  dflag :: bool
  hflag :: bool
  iflag :: bool
  oflag :: bool
  qflag :: bool
  vflag :: bool
  ivalue :: string
  ovalue :: string

definition flags0 :: flags where
  "flags0 = \<lparr>dflag = False, hflag = False, iflag = False, oflag = False, qflag = False,
             vflag = False, ivalue = ''i'', ovalue = ''o''\<rparr>"

text \<open>The \<^verbatim>\<open>while\<close> loop over \<^verbatim>\<open>getopt\<close>; \<open>None\<close> is the \<^verbatim>\<open>exit (ARG_ERROR)\<close> of its default case.\<close>

fun getopt_loop :: "opt list \<Rightarrow> flags \<Rightarrow> flags option" where
  "getopt_loop [] fl = Some fl"
| "getopt_loop (Opt_d # os) fl = getopt_loop os (fl\<lparr>dflag := True\<rparr>)"
| "getopt_loop (Opt_h # os) fl = getopt_loop os (fl\<lparr>hflag := True\<rparr>)"
| "getopt_loop (Opt_i a # os) fl = getopt_loop os (fl\<lparr>iflag := True, ivalue := a\<rparr>)"
| "getopt_loop (Opt_o a # os) fl = getopt_loop os (fl\<lparr>oflag := True, ovalue := a\<rparr>)"
| "getopt_loop (Opt_q # os) fl = getopt_loop os (fl\<lparr>qflag := True\<rparr>)"
| "getopt_loop (Opt_v # os) fl = getopt_loop os (fl\<lparr>vflag := True\<rparr>)"
| "getopt_loop (Opt_unknown # os) fl = None"

record invocation =
  argc :: nat
  options :: "opt list"

record rlimit =
  rlim_cur :: nat
  rlim_max :: nat

text \<open>
  What a run meets: the file system at validation, the descriptor limits \<^verbatim>\<open>getrlimit\<close>
  reports, the value \<^verbatim>\<open>pthread_create\<close> returns for each index, what each worker meets,
  and the schedule of the threads.

  A worker stores into its task record while \<^verbatim>\<open>main\<close> runs on. Its stores reach the
  record in program order, each at some moment of \<^verbatim>\<open>main\<close>. \<^verbatim>\<open>main\<close> touches the record of
  task \<open>i\<close> again when it stores \<^verbatim>\<open>TS_RUNNING\<close> after \<^verbatim>\<open>pthread_create\<close> has returned, and
  then in every scan of the polling loop, in up to five accesses: the read of the status
  in the first test (access 0), the read of the status in the third test (1), the read
  of the result in the test against \<^verbatim>\<open>EXIT_OK\<close> (2), the read of the result that is
  assigned to \<^verbatim>\<open>cmd_result\<close> (3) and the store of \<^verbatim>\<open>TS_CHECKED\<close> (4). \<open>head_start e i\<close> is
  the number of stores of worker \<open>i\<close> that have reached the record when \<^verbatim>\<open>main\<close> stores
  \<^verbatim>\<open>TS_RUNNING\<close>; \<open>lands e r i k\<close> is the number of further stores that reach it before
  access \<open>k\<close> of scan \<open>r\<close>. The reads of the time fields for the debug messages change
  nothing and are left out. Memory is taken to be sequentially consistent.

  The polling loop of the source has no bound. A run is followed for \<open>watch e\<close> scans; a
  run that is still polling after them has no exit code.
\<close>

record env =
  fs0 :: fsys
  limits :: rlimit
  create_result :: "nat \<Rightarrow> int"
  worker_env :: "nat \<Rightarrow> wenv"
  head_start :: "nat \<Rightarrow> nat"
  lands :: "nat \<Rightarrow> nat \<Rightarrow> nat \<Rightarrow> nat"
  watch :: nat

text \<open>What a run does, in order: the events the properties below speak of.\<close>

datatype event =
    Tokenized string
  | Opened nat
  | Missing nat
  | Limit_raised nat
  | Skipped nat
  | Created nat
  | Create_failed nat int
  | Started int
  | Reaped nat int

text \<open>
  The variables of \<^verbatim>\<open>main\<close> and the memory it shares with the workers: the task records
  \<open>fdata\<close>, and for each record the stores of its worker that have not reached it yet.
\<close>

record mstate =
  inumf :: nat
  onumf :: nat
  bnumf :: nat
  ifiles :: names
  ofiles :: names
  sfiles :: "nat \<Rightarrow> nat"
  rl :: rlimit
  fdata :: "filedata list"
  pending :: "fdwrite list list"
  t_run :: nat
  t_complete :: bool
  cmd_result :: int
  trace :: "event list"

definition mstate0 :: mstate where
  "mstate0 =
     \<lparr>inumf = 0, onumf = 0, bnumf = 0, ifiles = (\<lambda>i. []), ofiles = (\<lambda>i. []),
      sfiles = (\<lambda>i. 0), rl = \<lparr>rlim_cur = 0, rlim_max = 0\<rparr>, fdata = [], pending = [],
      t_run = 0, t_complete = False, cmd_result = 0, trace = []\<rparr>"

definition filedata0 :: filedata where
  "filedata0 =
     \<lparr>input_name = [], output_name = [], size_fd = 0, time_usec = 0, time_sec = 0,
      result = 0, status = 0, verify = 0\<rparr>"

text \<open>
  One round of the loop "Mark missing files and store size". Writing the terminator into
  the first character of a row makes the row the empty string.
\<close>

definition validate_step :: "fsys \<Rightarrow> nat \<Rightarrow> mstate \<Rightarrow> mstate" where
  "validate_step fs i s =
     (case fopen_r fs (ifiles s i) of
        None \<Rightarrow>
          s\<lparr>ifiles := (ifiles s)(i := []), ofiles := (ofiles s)(i := []),
            sfiles := (sfiles s)(i := 0), trace := trace s @ [Missing i]\<rparr>
      | Some infile \<Rightarrow>
          s\<lparr>sfiles := (sfiles s)(i := check_file_size infile),
            trace := trace s @ [Opened i]\<rparr>)"

text \<open>
  The next \<open>k\<close> stores of worker \<open>i\<close> reach its record, and a store of \<^verbatim>\<open>main\<close> to the
  status of record \<open>i\<close>.
\<close>

definition land :: "nat \<Rightarrow> nat \<Rightarrow> mstate \<Rightarrow> mstate" where
  "land k i s =
     s\<lparr>fdata := (fdata s)[i := foldl fd_store (fdata s ! i) (take k (pending s ! i))],
       pending := (pending s)[i := drop k (pending s ! i)]\<rparr>"

definition store_status :: "nat \<Rightarrow> int \<Rightarrow> mstate \<Rightarrow> mstate" where
  "store_status i x s = s\<lparr>fdata := (fdata s)[i := (fdata s ! i)\<lparr>status := x\<rparr>]\<rparr>"

text \<open>
  One round of the loop "Start processing file copy threads". The task records are the
  variable-length array \<^verbatim>\<open>fdata [inumf]\<close>, cleared before the loop. The worker starts with
  \<^verbatim>\<open>pthread_create\<close>, on the record as it is then; it reads the two names, the size and
  the verify flag, which \<^verbatim>\<open>main\<close> does not touch again, so its stores are fixed from
  there. \<^verbatim>\<open>main\<close> stores \<^verbatim>\<open>TS_RUNNING\<close> only after \<^verbatim>\<open>pthread_create\<close> has returned, over
  whatever the worker has stored by then.
\<close>

definition dispatch_step :: "env \<Rightarrow> bool \<Rightarrow> nat \<Rightarrow> mstate \<Rightarrow> mstate" where
  "dispatch_step e vf i s =
     (if ifiles s i = [] then
        s\<lparr>bnumf := bnumf s + 1, trace := trace s @ [Skipped i]\<rparr>
      else
        (let fd = (fdata s ! i)
                    \<lparr>input_name := strncpy_row (ifiles s i),
                     output_name := strncpy_row (ofiles s i),
                     size_fd := sfiles s i,
                     verify := (if vf then 1 else 0)\<rparr>;
             s1 = s\<lparr>fdata := (fdata s)[i := fd]\<rparr>;
             t_result = create_result e i
         in if t_result \<noteq> 0 then
              s1\<lparr>bnumf := bnumf s1 + 1, trace := trace s1 @ [Create_failed i t_result]\<rparr>
            else
              store_status i TS_RUNNING
                (land (head_start e i) i
                   (s1\<lparr>pending := (pending s1)[i := writes (copyFile_run (worker_env e i) fd)],
                       trace := trace s1 @ [Created i]\<rparr>))))"

text \<open>
  The branch of the polling loop for a record read as \<^verbatim>\<open>TS_DONE\<close>: the result is read
  and tested; a result other than \<^verbatim>\<open>EXIT_OK\<close> is read again into \<^verbatim>\<open>cmd_result\<close>; the
  record is marked checked. The event records the result that was read.
\<close>

definition check_result :: "env \<Rightarrow> nat \<Rightarrow> nat \<Rightarrow> mstate \<Rightarrow> mstate" where
  "check_result e r i s =
     (let s1 = land (lands e r i 2) i s in
      if result (fdata s1 ! i) = EXIT_OK then
        store_status i TS_CHECKED
          (land (lands e r i 4) i (s1\<lparr>trace := trace s1 @ [Reaped i EXIT_OK]\<rparr>))
      else
        (let s2 = land (lands e r i 3) i s1;
             s3 = s2\<lparr>cmd_result := result (fdata s2 ! i),
                     trace := trace s2 @ [Reaped i (result (fdata s2 ! i))]\<rparr>
         in store_status i TS_CHECKED (land (lands e r i 4) i s3)))"

text \<open>One round of the \<^verbatim>\<open>for\<close> loop inside the polling loop, and the whole \<^verbatim>\<open>for\<close> loop.\<close>

definition scan_step :: "env \<Rightarrow> nat \<Rightarrow> nat \<Rightarrow> mstate \<Rightarrow> mstate" where
  "scan_step e r i s =
     (let s1 = land (lands e r i 0) i s in
      if status (fdata s1 ! i) = TS_RUNNING then s1\<lparr>t_run := t_run s1 + 1\<rparr>
      else if ifiles s1 i = [] then s1
      else
        (let s2 = land (lands e r i 1) i s1 in
         if status (fdata s2 ! i) = TS_DONE then check_result e r i s2 else s2))"

definition scan :: "env \<Rightarrow> nat \<Rightarrow> mstate \<Rightarrow> mstate" where
  "scan e r s = fold (scan_step e r) [0..<inumf s] (s\<lparr>t_run := 0\<rparr>)"

text \<open>
  The polling loop, \<^verbatim>\<open>while (!t_complete)\<close>, followed for at most \<open>n\<close> scans from scan \<open>r\<close>
  on. A scan that met no record marked running sets \<^verbatim>\<open>t_complete\<close>.
\<close>

fun reaper :: "env \<Rightarrow> nat \<Rightarrow> nat \<Rightarrow> mstate \<Rightarrow> mstate" where
  "reaper e 0 r s = s"
| "reaper e (Suc n) r s =
     (if t_complete s then s
      else
        (let s1 = scan e r s;
             s2 = (if t_run s1 = 0 then s1\<lparr>t_complete := True\<rparr> else s1)
         in reaper e n (r + 1) s2))"

text \<open>The straight-line phases of \<^verbatim>\<open>main\<close> between its exits.\<close>

definition tokenize :: "flags \<Rightarrow> mstate" where
  "tokenize fl =
     (case get_filenames (ivalue fl) (ifiles mstate0) of
        (ni, ifs) \<Rightarrow>
          (case get_filenames (ovalue fl) (ofiles mstate0) of
             (no, ofs) \<Rightarrow>
               mstate0\<lparr>inumf := ni, onumf := no, ifiles := ifs, ofiles := ofs,
                       trace := [Tokenized (ivalue fl), Tokenized (ovalue fl)]\<rparr>))"

definition validate :: "env \<Rightarrow> mstate \<Rightarrow> mstate" where
  "validate e s = fold (validate_step (fs0 e)) [0..<inumf s] s"

text \<open>
  "Adjusting max open files limit according to files parsed"; \<open>None\<close> is the \<^verbatim>\<open>exit\<close> inside.
\<close>

definition adjust_limit :: "env \<Rightarrow> mstate \<Rightarrow> mstate option" where
  "adjust_limit e s =
     (let s1 = s\<lparr>rl := limits e\<rparr>;
          of_max = inumf s1 + onumf s1
      in if rlim_cur (rl s1) < of_max then
           (if of_max > rlim_max (rl s1) then None
            else Some (s1\<lparr>rl := (rl s1)\<lparr>rlim_cur := of_max\<rparr>,
                          trace := trace s1 @ [Limit_raised of_max]\<rparr>))
         else Some s1)"

definition dispatch :: "env \<Rightarrow> bool \<Rightarrow> mstate \<Rightarrow> mstate" where
  "dispatch e vf s =
     fold (dispatch_step e vf) [0..<inumf s]
       (s\<lparr>fdata := replicate (inumf s) filedata0, pending := replicate (inumf s) []\<rparr>)"

text \<open>
  The statement in front of the polling loop that reports the number of threads started,
  \<^verbatim>\<open>inumf - bnumf\<close>. The event records that the run has reached it, whether or not the
  quiet option suppresses the message.
\<close>

definition started :: "mstate \<Rightarrow> mstate" where
  "started s = s\<lparr>trace := trace s @ [Started (int (inumf s) - int (bnumf s))]\<rparr>"

text \<open>
  \<^verbatim>\<open>main\<close>: the exit code of the process, if it exits, and the state it is in at its exit
  or after the last scan it was followed for. The exits, in the order of the source: an
  unknown option, no argument at all, the help text, equal \<^verbatim>\<open>-i\<close> and \<^verbatim>\<open>-o\<close> arguments,
  unequal counts, a descriptor limit that cannot be raised, and the \<^verbatim>\<open>return\<close> behind the
  polling loop.
\<close>

record run =
  exit_code :: "int option"
  final :: mstate

definition main :: "invocation \<Rightarrow> env \<Rightarrow> run" where
  "main iv e =
     (case getopt_loop (options iv) flags0 of
        None \<Rightarrow> \<lparr>exit_code = Some ARG_ERROR, final = mstate0\<rparr>
      | Some fl \<Rightarrow>
          if argc iv = 1 then \<lparr>exit_code = Some ARG_ERROR, final = mstate0\<rparr>
          else if hflag fl then \<lparr>exit_code = Some EXIT_OK, final = mstate0\<rparr>
          else if ivalue fl = ovalue fl then \<lparr>exit_code = Some ARG_ERROR, final = mstate0\<rparr>
          else
            (let s1 = tokenize fl in
             if inumf s1 \<noteq> onumf s1 then \<lparr>exit_code = Some ARG_ERROR, final = s1\<rparr>
             else
               (let s2 = validate e s1 in
                case adjust_limit e s2 of
                  None \<Rightarrow> \<lparr>exit_code = Some READ_ERROR, final = s2\<rparr>
                | Some s3 \<Rightarrow>
                    (let s4 = reaper e (watch e) 0 (started (dispatch e (vflag fl) s3)) in
                     \<lparr>exit_code = (if t_complete s4 then Some (cmd_result s4) else None),
                      final = s4\<rparr>))))"

text \<open>A \<^verbatim>\<open>struct timeval\<close> read as seconds.\<close>

definition seconds :: "timeval \<Rightarrow> real" where
  "seconds t = real_of_int (tv_sec t) + real_of_int (tv_usec t) / 1000000"

section \<open>The aggregate the polling loop forms\<close>

text \<open>
  The results other than \<^verbatim>\<open>EXIT_OK\<close> that the polling loop read, in the order in which it
  read them, taken from the run's events, and the last of them (\<^verbatim>\<open>EXIT_OK\<close> when there is
  none).
\<close>

fun failures :: "event list \<Rightarrow> int list" where
  "failures [] = []"
| "failures (Reaped i r # evs) = (if r = EXIT_OK then failures evs else r # failures evs)"
| "failures (ev # evs) = failures evs"

definition last_failure :: "event list \<Rightarrow> int" where
  "last_failure evs = (if failures evs = [] then EXIT_OK else last (failures evs))"

text \<open>The events of the phases before the dispatch.\<close>

definition quiet_event :: "event \<Rightarrow> bool" where
  "quiet_event ev =
     (case ev of Tokenized a \<Rightarrow> True | Opened i \<Rightarrow> True | Missing i \<Rightarrow> True
      | Limit_raised n \<Rightarrow> True | _ \<Rightarrow> False)"

text \<open>
  A task record together with the stores of its worker still to come, measured against
  the result \<open>R\<close> of that worker: a store of the result stores \<open>R\<close>, there is at most one
  such store to come, and the record holds the initial \<^verbatim>\<open>EXIT_OK\<close> as long as it is to
  come and \<open>R\<close> afterwards.
\<close>

fun is_result :: "fdwrite \<Rightarrow> bool" where
  "is_result (Set_result x) = True"
| "is_result _ = False"

fun is_status :: "fdwrite \<Rightarrow> bool" where
  "is_status (Set_status x) = True"
| "is_status _ = False"

definition sound :: "int \<Rightarrow> filedata \<Rightarrow> fdwrite list \<Rightarrow> bool" where
  "sound R fd p \<longleftrightarrow>
     (filter is_result p = [] \<or> filter is_result p = [Set_result R]) \<and>
     (result fd = EXIT_OK \<or> result fd = R \<and> filter is_result p = [])"

text \<open>The result of the worker of task \<open>i\<close>, from the record of the task.\<close>

definition worker_result :: "env \<Rightarrow> mstate \<Rightarrow> nat \<Rightarrow> int" where
  "worker_result e s i = result (copyFile (worker_env e i) (fdata s ! i))"

text \<open>
  What holds of the task records and the events from the dispatch on. A thread is created
  for valid pairs only. A record without a thread stays in the initial state, and no store
  is under way to it. Every record is sound for the result of its worker. What the polling
  loop reads from a record is the record of a created thread, and it reads \<^verbatim>\<open>EXIT_OK\<close> or
  the result of the worker. \<^verbatim>\<open>cmd_result\<close> is the last result other than \<^verbatim>\<open>EXIT_OK\<close> that
  the loop read.
\<close>

definition tracked :: "env \<Rightarrow> mstate \<Rightarrow> bool" where
  "tracked e s \<longleftrightarrow>
     length (fdata s) = inumf s \<and> length (pending s) = inumf s \<and>
     (\<forall>i. Created i \<in> set (trace s) \<longrightarrow> i < inumf s \<and> ifiles s i \<noteq> []) \<and>
     (\<forall>i<inumf s. Created i \<notin> set (trace s) \<longrightarrow>
        pending s ! i = [] \<and> status (fdata s ! i) = TS_INIT \<and> result (fdata s ! i) = EXIT_OK) \<and>
     (\<forall>i<inumf s. Created i \<in> set (trace s) \<longrightarrow>
        sound (worker_result e s i) (fdata s ! i) (pending s ! i)) \<and>
     (\<forall>i r. Reaped i r \<in> set (trace s) \<longrightarrow>
        Created i \<in> set (trace s) \<and> (r = EXIT_OK \<or> r = worker_result e s i)) \<and>
     cmd_result s = last_failure (trace s)"

text \<open>
  A record that can never be read as finished: it is marked running and no store of a
  status is under way to it.
\<close>

definition stuck :: "mstate \<Rightarrow> nat \<Rightarrow> bool" where
  "stuck s i \<longleftrightarrow>
     i < inumf s \<and> i < length (fdata s) \<and> i < length (pending s) \<and>
     status (fdata s ! i) = TS_RUNNING \<and> filter is_status (pending s ! i) = []"

section \<open>Concrete runs\<close>

text \<open>
  Small file systems, tasks and runs on which the properties below are evaluated. The
  task records are as the dispatcher builds them.
\<close>

definition plain :: "string \<Rightarrow> diskfile" where
  "plain bytes = \<lparr>content = bytes, rd_fail = None\<rparr>"

definition task :: "string \<Rightarrow> string \<Rightarrow> nat \<Rightarrow> int \<Rightarrow> filedata" where
  "task inp out n v =
     filedata0\<lparr>input_name := inp, output_name := out, size_fd := n, verify := v,
               status := TS_RUNNING\<rparr>"

definition clock :: "int \<Rightarrow> int \<Rightarrow> timeval" where
  "clock s us = \<lparr>tv_sec = s, tv_usec = us\<rparr>"

text \<open>One readable file \<^verbatim>\<open>a\<close> of five bytes; nothing can be created under \<^verbatim>\<open>/ro\<close>.\<close>

definition fs_hello :: fsys where
  "fs_hello = \<lparr>files = [(''a'', plain ''hello'')], unwritable = [''/ro/x''], wr_limit = []\<rparr>"

definition we_hello :: wenv where
  "we_hello = \<lparr>wfs = fs_hello, between = [], t_start = clock 10 0, t_exit = clock 12 500000\<rparr>"

text \<open>The output grows by a byte, or is cut to one byte, before it is verified.\<close>

definition we_grown :: wenv where
  "we_grown = we_hello\<lparr>between := [(''b'', Some (plain ''hello!''))]\<rparr>"

definition we_cut :: wenv where
  "we_cut = we_hello\<lparr>between := [(''b'', Some (plain ''h''))]\<rparr>"

text \<open>An input of zero bytes.\<close>

definition we_empty :: wenv where
  "we_empty =
     \<lparr>wfs = \<lparr>files = [(''e'', plain [])], unwritable = [], wr_limit = []\<rparr>,
      between = [], t_start = clock 10 0, t_exit = clock 10 250\<rparr>"

text \<open>
  Runs. Every thread can be created, and all stores of a worker have reached its record
  when the polling loop first reads the status there; the run is followed for four
  scans. The descriptor limits are 1024 (soft) and 4096 (hard), or 1 and 1, or 3 and 3.
\<close>

definition env_plain :: env where
  "env_plain =
     \<lparr>fs0 = fs_hello, limits = \<lparr>rlim_cur = 1024, rlim_max = 4096\<rparr>,
      create_result = (\<lambda>i. 0), worker_env = (\<lambda>i. we_hello), head_start = (\<lambda>i. 0),
      lands = (\<lambda>r i k. if k = 0 then 6 else 0), watch = 4\<rparr>"

definition env_tight :: env where
  "env_tight = env_plain\<lparr>limits := \<lparr>rlim_cur = 1, rlim_max = 1\<rparr>\<rparr>"

definition env_three :: env where
  "env_three = env_plain\<lparr>limits := \<lparr>rlim_cur = 3, rlim_max = 3\<rparr>\<rparr>"

text \<open>
  The same run under two other schedules. In the first, three stores of a worker (the two
  time fields and the status) have reached its record when the polling loop first reads
  the status there, and the store of the result has not. In the second, these three
  stores have reached the record already when \<^verbatim>\<open>main\<close> stores \<^verbatim>\<open>TS_RUNNING\<close>.
\<close>

definition env_window :: env where
  "env_window = env_plain\<lparr>lands := (\<lambda>r i k. if k = 0 then 3 else 0)\<rparr>"

definition env_ahead :: env where
  "env_ahead = env_plain\<lparr>head_start := (\<lambda>i. 3)\<rparr>"

text \<open>
  A polling loop over one task whose worker has stored its status but not yet its result:
  the record is the task record after the first three stores of the worker, and the
  fourth is still to come.
\<close>

definition ms_window :: mstate where
  "ms_window =
     mstate0\<lparr>inumf := 1, onumf := 1, ifiles := (ifiles mstate0)(0 := ''a''),
             ofiles := (ofiles mstate0)(0 := ''/ro/x''),
             fdata := [foldl fd_store (task ''a'' ''/ro/x'' 5 0)
                         (take 3 (writes (copyFile_run we_hello (task ''a'' ''/ro/x'' 5 0))))],
             pending := [drop 3 (writes (copyFile_run we_hello (task ''a'' ''/ro/x'' 5 0)))]\<rparr>"

section \<open>What the tokenizer counts\<close>

text \<open>
  On a string with a delimiter the loop stores every token, one row each, and leaves at
  the first call that finds none, with the number of tokens in \<^verbatim>\<open>numf\<close>; the
  \<^verbatim>\<open>numf -= 1\<close> behind the loop then takes one off.
\<close>

lemma tok_loop_tokens:
  "i + length (tokens s) < FILES_MAX \<Longrightarrow>
   fst (tok_loop i s fn) = i + length (tokens s) \<and>
   (\<forall>j. snd (tok_loop i s fn) j =
      (if i \<le> j \<and> j < i + length (tokens s) then strncpy_row (tokens s ! (j - i)) else fn j))"
proof (induction s arbitrary: i fn rule: tokens.induct)
  case (1 s)
  show ?case
  proof (cases "strtok_r s")
    case None
    have "tokens s = []" using None by (subst tokens.simps) simp
    moreover have "tok_loop i s fn = (i, fn)" using None 1 by (subst tok_loop.simps) simp
    ultimately show ?thesis by auto
  next
    case (Some p)
    obtain token rest' where p: "p = (token, rest')" by (cases p)
    have tk: "tokens s = token # tokens rest'"
      using Some p by (subst tokens.simps) simp
    from "1.prems" tk have lt: "Suc i + length (tokens rest') < FILES_MAX" "i < FILES_MAX"
      by simp_all
    let ?fn = "fn(i := strncpy_row token)"
    note IH = "1.IH" [OF Some p [symmetric] lt(1), of ?fn]
    have step: "tok_loop i s fn = tok_loop (Suc i) rest' ?fn"
      using Some p lt by (subst tok_loop.simps) simp
    have "fst (tok_loop i s fn) = Suc i + length (tokens rest')"
      unfolding step by (rule IH [THEN conjunct1])
    then have "fst (tok_loop i s fn) = i + length (tokens s)"
      by (simp add: tk)
    moreover have "snd (tok_loop i s fn) j =
        (if i \<le> j \<and> j < i + length (tokens s) then strncpy_row (tokens s ! (j - i)) else fn j)" for j
    proof -
      have "snd (tok_loop i s fn) j =
         (if Suc i \<le> j \<and> j < Suc i + length (tokens rest')
          then strncpy_row (tokens rest' ! (j - Suc i)) else ?fn j)"
        unfolding step by (rule IH [THEN conjunct2, rule_format])
      then show ?thesis
        by (cases "j = i") (auto simp: tk nth_Cons' Suc_diff_Suc)
    qed
    ultimately show ?thesis by blast
  qed
qed

lemma get_filenames_count:
  assumes "DELIMITER \<in> set farg" and "length (tokens farg) < FILES_MAX"
  shows "fst (get_filenames farg fn) = length (tokens farg) - 1"
    and "j < length (tokens farg) \<Longrightarrow> snd (get_filenames farg fn) j = strncpy_row (tokens farg ! j)"
proof -
  from assms(1) have ne: "farg \<noteq> []" by auto
  from assms(2) have "0 + length (tokens farg) < FILES_MAX" by simp
  note tl = tok_loop_tokens [OF this, of fn]
  obtain numf fn' where tk: "tok_loop 0 farg fn = (numf, fn')" by (cases "tok_loop 0 farg fn")
  with tl have numf: "numf = length (tokens farg)"
    and rows: "\<And>j. j < length (tokens farg) \<Longrightarrow> fn' j = strncpy_row (tokens farg ! j)"
    by simp_all
  have gf: "get_filenames farg fn = (numf - 1, fn')"
    using assms(1) ne tk by (simp add: get_filenames_def)
  show "fst (get_filenames farg fn) = length (tokens farg) - 1"
    using gf numf by simp
  show "snd (get_filenames farg fn) j = strncpy_row (tokens farg ! j)" if "j < length (tokens farg)"
    using gf rows that by simp
qed

text \<open>
  Claim C9. There is a delimiter-separated argument with \<open>k \<ge> 2\<close> tokens, \<open>k\<close> below
  \<^verbatim>\<open>FILES_MAX\<close>, for which \<open>get_filenames\<close> returns \<open>k - 1\<close> although it has stored all \<open>k\<close>
  tokens in rows \<open>0\<close> to \<open>k - 1\<close> of the table (\<^verbatim>\<open>a|b\<close> is one; by \<open>get_filenames_count\<close>
  every argument with a delimiter and fewer than \<^verbatim>\<open>FILES_MAX\<close> tokens is).
\<close>

theorem get_filenames_undercounts:
  "\<exists>farg. 2 \<le> length (tokens farg) \<and> length (tokens farg) < FILES_MAX \<and>
     fst (get_filenames farg fn) = length (tokens farg) - 1 \<and>
     map (snd (get_filenames farg fn)) [0..<length (tokens farg)] = tokens farg"
proof (intro exI conjI)
  show "2 \<le> length (tokens ''a|b'')" by (simp add: strtok_r_def tokens.simps)
  show "length (tokens ''a|b'') < FILES_MAX" by (simp add: strtok_r_def FILES_MAX_def tokens.simps)
  show "fst (get_filenames ''a|b'' fn) = length (tokens ''a|b'') - 1"
    by (simp add: get_filenames_def strtok_r_def FILES_MAX_def tokens.simps tok_loop.simps)
  show "map (snd (get_filenames ''a|b'' fn)) [0..<length (tokens ''a|b'')] = tokens ''a|b''"
    by (simp add: get_filenames_def strtok_r_def FILES_MAX_def strncpy_row_def PATH_MAX_def upt_rec tokens.simps tok_loop.simps)
qed


section \<open>The exits of the worker\<close>

text \<open>
  The loops leave with the codes of their own exits only, so a worker ends in one of two
  ways: an error exit, whose stores are the reset of the two time fields, the status and
  one of the three error codes; or the exit at the end of the function.
\<close>

lemma copy_loop_err:
  "copy_loop infile outfile = (Some err, infile', outfile') \<Longrightarrow> err = READ_ERROR \<or> err = WRITE_ERROR"
proof (induction infile outfile rule: copy_loop.induct)
  case (1 infile outfile)
  from "1.prems" show ?case
    by (subst (asm) copy_loop.simps) (auto split: if_splits prod.splits dest: "1.IH")
qed

lemma verify_loop_err:
  "verify_loop infile outfile = Some err \<Longrightarrow> err = READ_ERROR \<or> err = VERIFY_ERROR"
proof (induction infile outfile rule: verify_loop.induct)
  case (1 infile outfile)
  from "1.prems" show ?case
    by (subst (asm) verify_loop.simps) (auto split: if_splits prod.splits dest: "1.IH")
qed

lemma transfer_err:
  "transfer fs fd = (Some err, fs1, n) \<Longrightarrow> err = READ_ERROR \<or> err = WRITE_ERROR"
  by (auto simp: transfer_def split: option.splits prod.splits dest: copy_loop_err)

lemma verification_err:
  "verification fs fd = Some err \<Longrightarrow> err = READ_ERROR \<or> err = VERIFY_ERROR"
  by (auto simp: verification_def split: option.splits dest: verify_loop_err)

lemma copyFile_run_cases:
  obtains (failed) err where "err = READ_ERROR \<or> err = WRITE_ERROR \<or> err = VERIFY_ERROR"
      and "writes (copyFile_run e fd) = [Set_time_usec 0, Set_time_sec 0, Set_status TS_DONE, Set_result err]"
  | (succeeded) "writes (copyFile_run e fd) =
        [Set_time_usec 0, Set_time_sec 0, Set_status TS_DONE, Set_result EXIT_OK,
         Set_time_usec (real_of_int (tv_usec (t_exit e) - tv_usec (t_start e)) / 1000000),
         Set_time_sec (real_of_int (tv_sec (t_exit e) - tv_sec (t_start e)))]"
proof -
  obtain r fs1 n where t: "transfer (wfs e) fd = (r, fs1, n)"
    by (cases "transfer (wfs e) fd")
  show ?thesis
  proof (cases r)
    case (Some err)
    with t transfer_err [of "wfs e" fd err fs1 n] show ?thesis
      by (intro failed [of err]) (auto simp: copyFile_run_def error_exit_def)
  next
    case None
    show ?thesis
    proof (cases "if verify fd \<noteq> 0 then verification (fs_changes (between e) fs1) fd else None")
      case None
      with t \<open>r = None\<close> show ?thesis
        by (intro succeeded) (auto simp: copyFile_run_def Let_def split: if_splits)
    next
      case (Some err)
      with t \<open>r = None\<close> verification_err [of "fs_changes (between e) fs1" fd err] show ?thesis
        by (intro failed [of err]) (auto simp: copyFile_run_def error_exit_def Let_def split: if_splits)
    qed
  qed
qed

lemma copyFile_cases:
  obtains (failed) err where "err = READ_ERROR \<or> err = WRITE_ERROR \<or> err = VERIFY_ERROR"
      and "copyFile e fd = fd\<lparr>time_usec := 0, time_sec := 0, status := TS_DONE, result := err\<rparr>"
  | (succeeded)
      "copyFile e fd = fd\<lparr>status := TS_DONE, result := EXIT_OK,
         time_usec := real_of_int (tv_usec (t_exit e) - tv_usec (t_start e)) / 1000000,
         time_sec := real_of_int (tv_sec (t_exit e) - tv_sec (t_start e))\<rparr>"
proof (cases e fd rule: copyFile_run_cases)
  case (failed err)
  then show ?thesis by (intro that(1) [of err]) (simp_all add: copyFile_def)
next
  case succeeded
  then show ?thesis by (intro that(2)) (simp add: copyFile_def)
qed

lemma status_copyFile: "status (copyFile e fd) = TS_DONE"
  by (cases e fd rule: copyFile_cases) simp_all


section \<open>Verification against a shorter output\<close>

text \<open>
  On two streams without read failures, the verification loop reads the input in blocks
  and asks the output for as many bytes as the input gave. When the output is the
  shorter one and agrees with the input on the blocks that lie wholly before its end, the
  loop reaches the block in which the output runs out and leaves with \<^verbatim>\<open>READ_ERROR\<close>.
\<close>

lemma buffers_differ_same: "\<not> buffers_differ xs xs"
  by (induction xs) simp_all

lemma fread_plain:
  "fread n \<lparr>rest = xs, fail_in = None, at_eof = b\<rparr> =
     (take n xs, \<lparr>rest = drop n xs, fail_in = None, at_eof = (b \<or> length xs < n)\<rparr>)"
  by (simp add: fread_def fread_ok_def)

lemma verify_loop_short_output:
  assumes "length ys < length xs"
    and "take (BLOCKSIZE * (length ys div BLOCKSIZE)) xs = take (BLOCKSIZE * (length ys div BLOCKSIZE)) ys"
  shows "verify_loop \<lparr>rest = xs, fail_in = None, at_eof = False\<rparr>
           \<lparr>rest = ys, fail_in = None, at_eof = b\<rparr> = Some READ_ERROR"
  using assms
proof (induction "length ys" arbitrary: xs ys b rule: less_induct)
  case less
  have B: "0 < BLOCKSIZE" by (simp add: BLOCKSIZE_def)
  from less.prems have ne: "xs \<noteq> []" by auto
  with B have ib: "take BLOCKSIZE xs \<noteq> []" by (cases xs) auto
  show ?case
  proof (cases "length ys < BLOCKSIZE")
    case True
    with less.prems have "length (take (min (length xs) BLOCKSIZE) ys) \<noteq> min (length xs) BLOCKSIZE"
      by auto
    with ib show ?thesis
      by (subst verify_loop.simps) (simp add: feof_def fread_plain)
  next
    case False
    then have ge: "BLOCKSIZE \<le> length ys" by simp
    with less.prems have gx: "BLOCKSIZE < length xs" by simp
    define k where "k = BLOCKSIZE * (length ys div BLOCKSIZE)"
    from ge B have kB: "BLOCKSIZE \<le> k"
      unfolding k_def by (metis div_greater_zero_iff mult.right_neutral mult_le_mono2 Suc_leI One_nat_def)
    from less.prems(2) have agree: "take k xs = take k ys" by (simp add: k_def)
    have "take BLOCKSIZE xs = take BLOCKSIZE (take k xs)" using kB by (simp add: min_def)
    also have "\<dots> = take BLOCKSIZE ys" using kB agree by (simp add: min_def)
    finally have same: "take BLOCKSIZE xs = take BLOCKSIZE ys" .
    have len': "length (drop BLOCKSIZE ys) < length ys" using ge B by simp
    have lt': "length (drop BLOCKSIZE ys) < length (drop BLOCKSIZE xs)"
      using less.prems(1) ge by simp
    have k': "BLOCKSIZE * (length (drop BLOCKSIZE ys) div BLOCKSIZE) = k - BLOCKSIZE"
      using ge B by (simp add: k_def le_div_geq right_diff_distrib')
    have "take (k - BLOCKSIZE) (drop BLOCKSIZE xs) = drop BLOCKSIZE (take k xs)"
      using kB by (simp add: drop_take)
    also have "\<dots> = take (k - BLOCKSIZE) (drop BLOCKSIZE ys)"
      using kB agree by (simp add: drop_take)
    finally have agree': "take (BLOCKSIZE * (length (drop BLOCKSIZE ys) div BLOCKSIZE)) (drop BLOCKSIZE xs)
        = take (BLOCKSIZE * (length (drop BLOCKSIZE ys) div BLOCKSIZE)) (drop BLOCKSIZE ys)"
      using k' by simp
    note IH = less.hyps [OF len' lt' agree']
    have "verify_loop \<lparr>rest = xs, fail_in = None, at_eof = False\<rparr> \<lparr>rest = ys, fail_in = None, at_eof = b\<rparr>
        = verify_loop \<lparr>rest = drop BLOCKSIZE xs, fail_in = None, at_eof = False\<rparr>
            \<lparr>rest = drop BLOCKSIZE ys, fail_in = None, at_eof = b\<rparr>"
      using ib ge gx same
      by (subst verify_loop.simps) (simp add: feof_def fread_plain buffers_differ_same min_def)
    with IH show ?thesis by simp
  qed
qed


text \<open>A shorter output cannot pass, whatever the bytes are.\<close>

lemma verify_loop_short_output_fails:
  assumes "length ys < length xs"
  shows "verify_loop \<lparr>rest = xs, fail_in = None, at_eof = False\<rparr>
           \<lparr>rest = ys, fail_in = None, at_eof = b\<rparr> \<noteq> None"
  using assms
proof (induction "length ys" arbitrary: xs ys b rule: less_induct)
  case less
  have B: "0 < BLOCKSIZE" by (simp add: BLOCKSIZE_def)
  from less.prems have ne: "xs \<noteq> []" by auto
  with B have ib: "take BLOCKSIZE xs \<noteq> []" by (cases xs) auto
  show ?case
  proof (cases "length ys < BLOCKSIZE")
    case True
    with less.prems have "length (take (min (length xs) BLOCKSIZE) ys) \<noteq> min (length xs) BLOCKSIZE"
      by auto
    with ib show ?thesis
      by (subst verify_loop.simps) (simp add: feof_def fread_plain)
  next
    case False
    then have ge: "BLOCKSIZE \<le> length ys" by simp
    with less.prems have gx: "BLOCKSIZE < length xs" by simp
    have len': "length (drop BLOCKSIZE ys) < length ys" using ge B by simp
    have lt': "length (drop BLOCKSIZE ys) < length (drop BLOCKSIZE xs)"
      using less.prems(1) ge by simp
    from less.hyps [OF len' lt', of b] obtain err where
      IH: "verify_loop \<lparr>rest = drop BLOCKSIZE xs, fail_in = None, at_eof = False\<rparr>
             \<lparr>rest = drop BLOCKSIZE ys, fail_in = None, at_eof = b\<rparr> = Some err"
      by auto
    have "verify_loop \<lparr>rest = xs, fail_in = None, at_eof = False\<rparr> \<lparr>rest = ys, fail_in = None, at_eof = b\<rparr>
        = (if buffers_differ (take BLOCKSIZE xs) (take BLOCKSIZE ys) then Some VERIFY_ERROR
           else verify_loop \<lparr>rest = drop BLOCKSIZE xs, fail_in = None, at_eof = False\<rparr>
             \<lparr>rest = drop BLOCKSIZE ys, fail_in = None, at_eof = b\<rparr>)"
      using ib ge gx
      by (subst verify_loop.simps) (simp add: feof_def fread_plain min_def)
    with IH show ?thesis by simp
  qed
qed

text \<open>The equations that evaluate a worker on a concrete file system.\<close>

lemmas worker_eval =
  copyFile_def copyFile_run_def transfer_def verification_def error_exit_def
  fopen_r_def fopen_w_def fs_lookup_def fs_store_def fs_remove_def fs_changes_def fclose_w_def
  fread_def fread_ok_def fwrite_def feof_def copy_loop.simps verify_loop.simps
  BLOCKSIZE_def filedata0_def empty_file_def plain_def task_def clock_def
  fs_hello_def we_hello_def we_grown_def we_cut_def we_empty_def

text \<open>
  Claim C2, as the code has it. Take a task with verification on whose transfer went
  through, and let both files be readable without failures when they are reopened. If
  the output is shorter than the input, the worker does not end with \<^verbatim>\<open>EXIT_OK\<close>; and if
  the output agrees with the input on every block that lies wholly before the output's
  end, so that the loop reaches the block in which the output runs out before the input
  does, the worker ends with \<^verbatim>\<open>READ_ERROR\<close>.
\<close>

theorem short_output_is_read_error:
  assumes "transfer (wfs e) fd = (None, fs1, n)"
    and "verify fd \<noteq> 0"
    and "fs_lookup (fs_changes (between e) fs1) (input_name fd) = Some \<lparr>content = xs, rd_fail = None\<rparr>"
    and "fs_lookup (fs_changes (between e) fs1) (output_name fd) = Some \<lparr>content = ys, rd_fail = None\<rparr>"
    and "length ys < length xs"
  shows "result (copyFile e fd) \<noteq> EXIT_OK \<and> status (copyFile e fd) = TS_DONE \<and>
    (take (BLOCKSIZE * (length ys div BLOCKSIZE)) xs = take (BLOCKSIZE * (length ys div BLOCKSIZE)) ys
      \<longrightarrow> result (copyFile e fd) = READ_ERROR)"
proof -
  let ?fs = "fs_changes (between e) fs1"
  have v: "verification ?fs fd =
      verify_loop \<lparr>rest = xs, fail_in = None, at_eof = False\<rparr> \<lparr>rest = ys, fail_in = None, at_eof = False\<rparr>"
    using assms(3,4) by (simp add: verification_def fopen_r_def)
  obtain err where err: "verification ?fs fd = Some err"
    using verify_loop_short_output_fails [OF assms(5), of False] v by auto
  have run: "copyFile_run e fd = error_exit err ?fs n"
    using assms(1,2) err by (simp add: copyFile_run_def)
  from verification_err [OF err] have "err \<noteq> EXIT_OK" by auto
  moreover have "err = READ_ERROR"
    if "take (BLOCKSIZE * (length ys div BLOCKSIZE)) xs = take (BLOCKSIZE * (length ys div BLOCKSIZE)) ys"
    using verify_loop_short_output [OF assms(5) that, of False] v err by simp
  ultimately show ?thesis
    using run by (simp add: copyFile_def error_exit_def)
qed

text \<open>The theorem at work: the output is cut to one byte before it is verified.\<close>

theorem short_output_witness:
  "verify (task ''a'' ''b'' 5 1) \<noteq> 0 \<and> fst (transfer (wfs we_cut) (task ''a'' ''b'' 5 1)) = None \<and>
   length ''h'' < length ''hello'' \<and>
   result (copyFile we_cut (task ''a'' ''b'' 5 1)) = READ_ERROR"
proof -
  let ?fs1 = "fs_hello\<lparr>files := [(''b'', plain ''hello''), (''a'', plain ''hello'')]\<rparr>"
  have t: "transfer (wfs we_cut) (task ''a'' ''b'' 5 1) = (None, ?fs1, 1)"
    by (simp add: worker_eval)
  have v: "verify (task ''a'' ''b'' 5 1) \<noteq> 0" by (simp add: task_def)
  have i: "fs_lookup (fs_changes (between we_cut) ?fs1) (input_name (task ''a'' ''b'' 5 1))
      = Some \<lparr>content = ''hello'', rd_fail = None\<rparr>"
    by (simp add: worker_eval)
  have o: "fs_lookup (fs_changes (between we_cut) ?fs1) (output_name (task ''a'' ''b'' 5 1))
      = Some \<lparr>content = ''h'', rd_fail = None\<rparr>"
    by (simp add: worker_eval)
  have l: "length ''h'' < length ''hello''" by simp
  from short_output_is_read_error [OF t v i o l] t v l show ?thesis
    by (simp add: BLOCKSIZE_def)
qed

text \<open>
  Claim C2 as stated fails in the other direction. The loop is driven by the input: when
  the input is exhausted first, it stops there without reading on in the output. Here the output has grown by one byte before it is verified, the
  two files have different lengths, and the worker ends with \<^verbatim>\<open>EXIT_OK\<close>.
\<close>

theorem long_output_counterexample:
  "verify (task ''a'' ''b'' 5 1) \<noteq> 0 \<and> fst (transfer (wfs we_grown) (task ''a'' ''b'' 5 1)) = None \<and>
   fs_lookup (fs_after (copyFile_run we_grown (task ''a'' ''b'' 5 1))) ''a'' = Some (plain ''hello'') \<and>
   fs_lookup (fs_after (copyFile_run we_grown (task ''a'' ''b'' 5 1))) ''b'' = Some (plain ''hello!'') \<and>
   result (copyFile we_grown (task ''a'' ''b'' 5 1)) = EXIT_OK"
  by (simp add: worker_eval)


section \<open>The time fields\<close>

text \<open>
  Claim C8, as the code has it. The exit at the end of the function stores the time
  between the clock reading at the start and the one at the exit, split over the two
  fields; their sum is that duration in seconds. Every error exit leaves through
  \<^verbatim>\<open>pthread_exit\<close> before the clock is read again, and both fields keep the zero they were
  reset to.
\<close>

theorem elapsed_stored_on_success_only:
  "(result (copyFile e fd) = EXIT_OK \<longrightarrow>
      time_sec (copyFile e fd) + time_usec (copyFile e fd) = seconds (t_exit e) - seconds (t_start e)) \<and>
   (result (copyFile e fd) \<noteq> EXIT_OK \<longrightarrow>
      time_sec (copyFile e fd) = 0 \<and> time_usec (copyFile e fd) = 0)"
proof (cases e fd rule: copyFile_cases)
  case (failed err)
  then show ?thesis by auto
next
  case succeeded
  then show ?thesis by (simp add: seconds_def diff_divide_distrib)
qed

text \<open>The theorem on a copy that succeeds and on one whose output cannot be created.\<close>

theorem elapsed_stored_witness:
  "result (copyFile we_hello (task ''a'' ''b'' 5 0)) = EXIT_OK \<and>
   time_sec (copyFile we_hello (task ''a'' ''b'' 5 0)) + time_usec (copyFile we_hello (task ''a'' ''b'' 5 0)) = 5 / 2 \<and>
   result (copyFile we_hello (task ''a'' ''/ro/x'' 5 0)) = WRITE_ERROR \<and>
   time_sec (copyFile we_hello (task ''a'' ''/ro/x'' 5 0)) = 0 \<and>
   time_usec (copyFile we_hello (task ''a'' ''/ro/x'' 5 0)) = 0"
proof -
  have ok: "result (copyFile we_hello (task ''a'' ''b'' 5 0)) = EXIT_OK"
    by (simp add: worker_eval)
  have bad: "result (copyFile we_hello (task ''a'' ''/ro/x'' 5 0)) = WRITE_ERROR"
    by (simp add: worker_eval)
  have d: "seconds (t_exit we_hello) - seconds (t_start we_hello) = 5 / 2"
    by (simp add: we_hello_def seconds_def clock_def)
  from elapsed_stored_on_success_only [of we_hello "task ''a'' ''b'' 5 0"]
    elapsed_stored_on_success_only [of we_hello "task ''a'' ''/ro/x'' 5 0"] ok bad d
  show ?thesis by simp
qed

text \<open>
  Claim C8 as stated fails on the error exits: the worker below runs for two and a half
  seconds, ends with \<^verbatim>\<open>WRITE_ERROR\<close>, and its elapsed time is zero.
\<close>

theorem elapsed_on_error_counterexample:
  "result (copyFile we_hello (task ''a'' ''/ro/x'' 5 0)) = WRITE_ERROR \<and>
   seconds (t_exit we_hello) - seconds (t_start we_hello) = 5 / 2 \<and>
   time_sec (copyFile we_hello (task ''a'' ''/ro/x'' 5 0)) + time_usec (copyFile we_hello (task ''a'' ''/ro/x'' 5 0)) = 0"
  by (simp add: worker_eval seconds_def)

section \<open>The order of the worker's stores\<close>

text \<open>
  On every path the status is stored once, as the third store, and the result is stored
  right behind it; the last exit stores the two time fields after that.
\<close>

lemma done_store_then_result:
  "\<exists>r post. writes (copyFile_run e fd) =
      [Set_time_usec 0, Set_time_sec 0, Set_status TS_DONE, Set_result r] @ post \<and>
      (post = [] \<or> (\<exists>a b. post = [Set_time_usec a, Set_time_sec b]))"
proof (cases e fd rule: copyFile_run_cases)
  case (failed err)
  then show ?thesis by simp
next
  case succeeded
  show ?thesis
    unfolding succeeded by (rule exI [of _ EXIT_OK]) (simp only: append_Cons append_Nil, blast)
qed

text \<open>
  Claim C4 is not what the code does. For an output that cannot be created, the worker
  stores \<^verbatim>\<open>TS_DONE\<close> and then \<^verbatim>\<open>WRITE_ERROR\<close>. Between the two stores the record shows a
  finished task with result \<^verbatim>\<open>EXIT_OK\<close>; a scan of the polling loop that reads it there,
  before a further store of the worker reaches the record, marks the task checked,
  records no failure and ends the loop.
\<close>

theorem result_stored_after_done:
  "writes (copyFile_run we_hello (task ''a'' ''/ro/x'' 5 0)) =
     [Set_time_usec 0, Set_time_sec 0, Set_status TS_DONE, Set_result WRITE_ERROR] \<and>
   status (fdata ms_window ! 0) = TS_DONE \<and> result (fdata ms_window ! 0) = EXIT_OK \<and>
   result (copyFile we_hello (task ''a'' ''/ro/x'' 5 0)) = WRITE_ERROR \<and>
   cmd_result (scan (e\<lparr>lands := (\<lambda>r i k. 0)\<rparr>) 0 ms_window) = EXIT_OK \<and>
   trace (scan (e\<lparr>lands := (\<lambda>r i k. 0)\<rparr>) 0 ms_window) = [Reaped 0 EXIT_OK] \<and>
   t_run (scan (e\<lparr>lands := (\<lambda>r i k. 0)\<rparr>) 0 ms_window) = 0"
  by (simp add: worker_eval ms_window_def mstate0_def scan_def scan_step_def check_result_def
      land_def store_status_def)

section \<open>An input of zero bytes\<close>

lemma map_of_filter_other:
  "map_of (filter (\<lambda>e. fst e \<noteq> p) xs) q = (if q = p then None else map_of xs q)"
  by (induction xs) auto

lemma fs_lookup_store:
  "fs_lookup (fs_store p g fs) q = (if q = p then Some g else fs_lookup fs q)"
  by (simp add: fs_lookup_def fs_store_def map_of_filter_other)

lemma fread_at_end:
  "x \<noteq> Some 0 \<Longrightarrow>
   fread BLOCKSIZE \<lparr>rest = [], fail_in = x, at_eof = b\<rparr> =
     ([], \<lparr>rest = [], fail_in = x, at_eof = True\<rparr>)"
  by (cases x) (simp_all add: fread_def fread_ok_def BLOCKSIZE_def)

lemma copy_loop_empty:
  "x \<noteq> Some 0 \<Longrightarrow>
   copy_loop \<lparr>rest = [], fail_in = x, at_eof = False\<rparr> outfile =
     (None, \<lparr>rest = [], fail_in = x, at_eof = True\<rparr>, outfile)"
  by (subst copy_loop.simps) (simp add: feof_def fread_at_end)

lemma verify_loop_empty:
  "x \<noteq> Some 0 \<Longrightarrow> verify_loop \<lparr>rest = [], fail_in = x, at_eof = False\<rparr> outfile = None"
  by (subst verify_loop.simps) (simp add: feof_def fread_at_end)

text \<open>
  Claim C7. The input opens, has no bytes and reads without failure; the output can be
  opened for writing; nobody touches the files before the verification. Then the
  transfer loop makes no \<^verbatim>\<open>fwrite\<close> call, the output is left empty, the worker ends with
  \<^verbatim>\<open>EXIT_OK\<close> (with verification on or off), and the verification of the two empty files
  succeeds.
\<close>

theorem zero_length_input:
  assumes "fs_lookup (wfs e) (input_name fd) = Some f"
    and "content f = []"
    and "rd_fail f \<noteq> Some 0"
    and "output_name fd \<notin> set (unwritable (wfs e))"
    and "between e = []"
  shows "result (copyFile e fd) = EXIT_OK \<and> status (copyFile e fd) = TS_DONE \<and>
    fwrite_calls (copyFile_run e fd) = 0 \<and>
    fs_lookup (fs_after (copyFile_run e fd)) (output_name fd) = Some \<lparr>content = [], rd_fail = None\<rparr> \<and>
    verification (fs_after (copyFile_run e fd)) fd = None"
proof -
  define outfile where
    "outfile = \<lparr>wpath = output_name fd, written = [], wlimit = map_of (wr_limit (wfs e)) (output_name fd),
                wcalls = 0\<rparr>"
  define fs1 where "fs1 = fs_store (output_name fd) empty_file (wfs e)"
  define fs2 where "fs2 = fclose_w outfile fs1"
  have opn: "fopen_r (wfs e) (input_name fd) = Some \<lparr>rest = [], fail_in = rd_fail f, at_eof = False\<rparr>"
    using assms(1,2) by (simp add: fopen_r_def)
  have opw: "fopen_w (wfs e) (output_name fd) = Some (outfile, fs1)"
    using assms(4) by (simp add: fopen_w_def outfile_def fs1_def)
  have tr: "transfer (wfs e) fd = (None, fs2, 0)"
    using assms(3) by (simp add: transfer_def opn opw copy_loop_empty fs2_def) (simp add: outfile_def)
  have out2: "fs_lookup fs2 (output_name fd) = Some \<lparr>content = [], rd_fail = None\<rparr>"
    by (simp add: fs2_def fclose_w_def fs_lookup_store outfile_def)
  have in2: "\<exists>g. fs_lookup fs2 (input_name fd) = Some g \<and> content g = [] \<and> rd_fail g \<noteq> Some 0"
    using assms(1,2,3)
    by (auto simp: fs2_def fs1_def fclose_w_def fs_lookup_store outfile_def empty_file_def)
  then obtain g where g: "fs_lookup fs2 (input_name fd) = Some g" "content g = []" "rd_fail g \<noteq> Some 0"
    by blast
  have ver: "verification fs2 fd = None"
    using g out2 by (simp add: verification_def fopen_r_def verify_loop_empty)
  have run: "writes (copyFile_run e fd) =
        [Set_time_usec 0, Set_time_sec 0, Set_status TS_DONE, Set_result EXIT_OK,
         Set_time_usec (real_of_int (tv_usec (t_exit e) - tv_usec (t_start e)) / 1000000),
         Set_time_sec (real_of_int (tv_sec (t_exit e) - tv_sec (t_start e)))]"
    and fa: "fs_after (copyFile_run e fd) = fs2" and fc: "fwrite_calls (copyFile_run e fd) = 0"
    using tr ver assms(5) by (simp_all add: copyFile_run_def fs_changes_def Let_def)
  show ?thesis
    using run fa fc out2 ver by (simp add: copyFile_def)
qed

text \<open>The theorem on an empty file, with verification on.\<close>

theorem zero_length_input_witness:
  "fs_lookup (wfs we_empty) (input_name (task ''e'' ''out'' 0 1)) = Some (plain []) \<and>
   result (copyFile we_empty (task ''e'' ''out'' 0 1)) = EXIT_OK \<and>
   fwrite_calls (copyFile_run we_empty (task ''e'' ''out'' 0 1)) = 0 \<and>
   verification (fs_after (copyFile_run we_empty (task ''e'' ''out'' 0 1))) (task ''e'' ''out'' 0 1) = None"
proof -
  have 1: "fs_lookup (wfs we_empty) (input_name (task ''e'' ''out'' 0 1)) = Some (plain [])"
    by (simp add: we_empty_def task_def fs_lookup_def)
  have 2: "content (plain []) = []" "rd_fail (plain []) \<noteq> Some 0"
    by (simp_all add: plain_def)
  have 3: "output_name (task ''e'' ''out'' 0 1) \<notin> set (unwritable (wfs we_empty))"
    by (simp add: we_empty_def)
  have 4: "between we_empty = []"
    by (simp add: we_empty_def)
  from zero_length_input [OF 1 2 3 4] 1 show ?thesis by simp
qed


section \<open>The exits of \<open>main\<close> before any file is touched\<close>

text \<open>The equations that evaluate a run on concrete arguments; the polling loop is unfolded
  only in runs that reach it.\<close>

lemma reaper_unfold:
  "reaper e n r s =
     (if n = 0 \<or> t_complete s then s
      else reaper e (n - 1) (r + 1)
             (if t_run (scan e r s) = 0 then (scan e r s)\<lparr>t_complete := True\<rparr> else scan e r s))"
  by (cases n) (simp_all add: Let_def)

lemmas main_eval0 =
  main_def tokenize_def validate_def validate_step_def adjust_limit_def dispatch_def dispatch_step_def
  scan_def scan_step_def check_result_def land_def store_status_def
  get_filenames_def tok_loop.simps strtok_r_def
  strncpy_row_def PATH_MAX_def FILES_MAX_def mstate0_def flags0_def started_def filedata0_def
  env_plain_def env_tight_def env_three_def env_window_def env_ahead_def Let_def

lemmas main_eval = main_eval0 reaper_unfold

text \<open>
  Claim C10, as the code has it. When the options parse, \<^verbatim>\<open>-h\<close> is not among them and the
  two argument strings are equal, the process exits with \<^verbatim>\<open>ARG_ERROR\<close>; nothing has been
  tokenized, no file has been opened, no task record exists and no thread has been
  created.
\<close>

theorem equal_arguments_rejected:
  assumes "getopt_loop (options iv) flags0 = Some fl"
    and "\<not> hflag fl"
    and "ivalue fl = ovalue fl"
  shows "exit_code (main iv e) = Some ARG_ERROR \<and> trace (final (main iv e)) = [] \<and>
    fdata (final (main iv e)) = []"
  using assms by (simp add: main_def mstate0_def)

text \<open>The theorem on \<^verbatim>\<open>threadcopy -i a -o a\<close>.\<close>

theorem equal_arguments_witness:
  "getopt_loop (options \<lparr>argc = 5, options = [Opt_i ''a'', Opt_o ''a'']\<rparr>) flags0 =
     Some (flags0\<lparr>iflag := True, ivalue := ''a'', oflag := True, ovalue := ''a''\<rparr>) \<and>
   exit_code (main \<lparr>argc = 5, options = [Opt_i ''a'', Opt_o ''a'']\<rparr> env_plain) = Some ARG_ERROR \<and>
   trace (final (main \<lparr>argc = 5, options = [Opt_i ''a'', Opt_o ''a'']\<rparr> env_plain)) = []"
proof -
  let ?fl = "flags0\<lparr>iflag := True, ivalue := ''a'', oflag := True, ovalue := ''a''\<rparr>"
  have 1: "getopt_loop (options \<lparr>argc = 5, options = [Opt_i ''a'', Opt_o ''a'']\<rparr>) flags0 = Some ?fl"
    by simp
  have 2: "\<not> hflag ?fl" by (simp add: flags0_def)
  have 3: "ivalue ?fl = ovalue ?fl" by simp
  from equal_arguments_rejected [OF 1 2 3, of env_plain] 1 show ?thesis by simp
qed

text \<open>
  Claim C10 as stated fails when \<^verbatim>\<open>-h\<close> is given as well: the help text is printed and
  the process exits with \<^verbatim>\<open>EXIT_OK\<close> before the two arguments are compared. This is
  \<^verbatim>\<open>threadcopy -h -i a -o a\<close>.
\<close>

theorem equal_arguments_help_counterexample:
  "getopt_loop [Opt_h, Opt_i ''a'', Opt_o ''a''] flags0 =
     Some (flags0\<lparr>hflag := True, iflag := True, ivalue := ''a'', oflag := True, ovalue := ''a''\<rparr>) \<and>
   exit_code (main \<lparr>argc = 6, options = [Opt_h, Opt_i ''a'', Opt_o ''a'']\<rparr> env_plain) = Some EXIT_OK"
  by (simp add: main_def)

section \<open>The phases before the dispatch\<close>

text \<open>A loop keeps what each of its rounds keeps.\<close>

lemma fold_keeps:
  assumes "\<And>i s. i \<in> set is \<Longrightarrow> P s \<Longrightarrow> P (f i s)" and "P s"
  shows "P (fold f is s)"
  using assms by (induction "is" arbitrary: s) auto

text \<open>
  The validation changes the two tables, the sizes and the events only, and its events
  are those of opened and of missing inputs.
\<close>

lemma validate_step_frame:
  "inumf (validate_step fs i s) = inumf s" "onumf (validate_step fs i s) = onumf s"
  "fdata (validate_step fs i s) = fdata s" "cmd_result (validate_step fs i s) = cmd_result s"
  "t_complete (validate_step fs i s) = t_complete s"
  "list_all quiet_event (trace s) \<Longrightarrow> list_all quiet_event (trace (validate_step fs i s))"
  by (simp_all add: validate_step_def quiet_event_def split: option.splits)

lemma validate_frame:
  "inumf (validate e s) = inumf s" "onumf (validate e s) = onumf s"
  "fdata (validate e s) = fdata s" "cmd_result (validate e s) = cmd_result s"
  "t_complete (validate e s) = t_complete s"
  "list_all quiet_event (trace s) \<Longrightarrow> list_all quiet_event (trace (validate e s))"
proof -
  let ?P = "\<lambda>t. inumf t = inumf s \<and> onumf t = onumf s \<and> fdata t = fdata s \<and> cmd_result t = cmd_result s
    \<and> t_complete t = t_complete s
    \<and> (list_all quiet_event (trace s) \<longrightarrow> list_all quiet_event (trace t))"
  have "?P (fold (validate_step (fs0 e)) [0..<inumf s] s)"
    by (rule fold_keeps) (auto simp: validate_step_frame)
  then show "inumf (validate e s) = inumf s" "onumf (validate e s) = onumf s"
    "fdata (validate e s) = fdata s" "cmd_result (validate e s) = cmd_result s"
    "t_complete (validate e s) = t_complete s"
    "list_all quiet_event (trace s) \<Longrightarrow> list_all quiet_event (trace (validate e s))"
    by (simp_all add: validate_def)
qed

lemma tokenize_frame:
  "fdata (tokenize fl) = []" "cmd_result (tokenize fl) = EXIT_OK"
  "list_all quiet_event (trace (tokenize fl))"
  "trace (tokenize fl) = [Tokenized (ivalue fl), Tokenized (ovalue fl)]"
  "\<not> t_complete (tokenize fl)"
  "inumf (tokenize fl) = fst (get_filenames (ivalue fl) (\<lambda>i. []))"
  "onumf (tokenize fl) = fst (get_filenames (ovalue fl) (\<lambda>i. []))"
  by (simp_all add: tokenize_def mstate0_def quiet_event_def split: prod.splits)

text \<open>
  The validation blanks exactly the rows whose input does not open, and it reports
  exactly those indices as missing.
\<close>

lemma validate_step_rows:
  "ifiles (validate_step fs k t) i =
     (if i = k \<and> fopen_r fs (ifiles t k) = None then [] else ifiles t i)"
  "ofiles (validate_step fs k t) i =
     (if i = k \<and> fopen_r fs (ifiles t k) = None then [] else ofiles t i)"
  "(Missing i \<in> set (trace (validate_step fs k t))) =
     (Missing i \<in> set (trace t) \<or> i = k \<and> fopen_r fs (ifiles t k) = None)"
  by (auto simp: validate_step_def split: option.splits)

lemma validate_prefix:
  "(\<forall>i. ifiles (fold (validate_step fs) [0..<k] s) i =
        (if i < k \<and> fopen_r fs (ifiles s i) = None then [] else ifiles s i)) \<and>
   (\<forall>i. ofiles (fold (validate_step fs) [0..<k] s) i =
        (if i < k \<and> fopen_r fs (ifiles s i) = None then [] else ofiles s i)) \<and>
   (\<forall>i. (Missing i \<in> set (trace (fold (validate_step fs) [0..<k] s))) =
        (Missing i \<in> set (trace s) \<or> i < k \<and> fopen_r fs (ifiles s i) = None))"
proof (induction k)
  case 0
  show ?case by simp
next
  case (Suc k)
  define t where "t = fold (validate_step fs) [0..<k] s"
  from Suc have IH:
    "\<And>i. ifiles t i = (if i < k \<and> fopen_r fs (ifiles s i) = None then [] else ifiles s i)"
    "\<And>i. ofiles t i = (if i < k \<and> fopen_r fs (ifiles s i) = None then [] else ofiles s i)"
    "\<And>i. (Missing i \<in> set (trace t)) =
        (Missing i \<in> set (trace s) \<or> i < k \<and> fopen_r fs (ifiles s i) = None)"
    by (simp_all add: t_def)
  have step: "fold (validate_step fs) [0..<Suc k] s = validate_step fs k t"
    by (simp add: t_def)
  show ?case
    unfolding step by (auto simp: validate_step_rows IH less_Suc_eq)
qed

lemma validate_rows:
  assumes "i < inumf s" and "fopen_r (fs0 e) (ifiles s i) = None"
  shows "ifiles (validate e s) i = []" "ofiles (validate e s) i = []"
  using validate_prefix [of "fs0 e" "inumf s" s] assms by (simp_all add: validate_def)

lemma validate_missing:
  assumes "Missing i \<in> set (trace (validate e s))" and "Missing i \<notin> set (trace s)"
  shows "i < inumf s" "fopen_r (fs0 e) (ifiles s i) = None"
  using validate_prefix [of "fs0 e" "inumf s" s] assms by (simp_all add: validate_def)

text \<open>The adjustment of the limit keeps the counts, the tables and the records.\<close>

lemma adjust_limit_frame:
  assumes "adjust_limit e s = Some s3"
  shows "inumf s3 = inumf s" "onumf s3 = onumf s" "ifiles s3 = ifiles s" "ofiles s3 = ofiles s"
    "cmd_result s3 = cmd_result s" "t_complete s3 = t_complete s"
    "list_all quiet_event (trace s) \<Longrightarrow> list_all quiet_event (trace s3)"
    "(Missing i \<in> set (trace s3)) = (Missing i \<in> set (trace s))"
  using assms by (auto simp: adjust_limit_def Let_def quiet_event_def split: if_splits)

lemma started_frame:
  "inumf (started s) = inumf s" "onumf (started s) = onumf s" "ifiles (started s) = ifiles s"
  "ofiles (started s) = ofiles s" "t_complete (started s) = t_complete s"
  "(Missing i \<in> set (trace (started s))) = (Missing i \<in> set (trace s))"
  "(Created i \<in> set (trace (started s))) = (Created i \<in> set (trace s))"
  by (simp_all add: started_def)


lemma quiet_not_created: "list_all quiet_event evs \<Longrightarrow> Created i \<notin> set evs"
  by (auto simp: list_all_iff quiet_event_def)

lemma quiet_not_reaped: "list_all quiet_event evs \<Longrightarrow> Reaped i r \<notin> set evs"
  by (auto simp: list_all_iff quiet_event_def)

lemma quiet_not_started: "list_all quiet_event evs \<Longrightarrow> Started n \<notin> set evs"
  by (auto simp: list_all_iff quiet_event_def)

section \<open>The stores of a worker\<close>

text \<open>
  A worker reads the two names and the verify flag of its record and nothing else, and no
  store changes them: the result of the worker can be told from the record at any time.
  Among its stores there is one of the status and one of the result.
\<close>

lemma foldl_fd_store_task:
  "input_name (foldl fd_store fd ws) = input_name fd \<and>
   output_name (foldl fd_store fd ws) = output_name fd \<and>
   verify (foldl fd_store fd ws) = verify fd"
proof (induction ws arbitrary: fd)
  case Nil
  show ?case by simp
next
  case (Cons w ws)
  show ?case by (cases w) (simp_all add: Cons.IH)
qed

lemma result_foldl_none:
  "filter is_result ws = [] \<Longrightarrow> result (foldl fd_store fd ws) = result fd"
proof (induction ws arbitrary: fd)
  case Nil
  show ?case by simp
next
  case (Cons w ws)
  then show ?case by (cases w) (simp_all split: if_splits)
qed

lemma result_foldl_one:
  "filter is_result ws = [Set_result x] \<Longrightarrow> result (foldl fd_store fd ws) = x"
proof (induction ws arbitrary: fd)
  case Nil
  then show ?case by simp
next
  case (Cons w ws)
  then show ?case by (cases w) (simp_all add: result_foldl_none split: if_splits)
qed

lemma status_foldl_none:
  "filter is_status ws = [] \<Longrightarrow> status (foldl fd_store fd ws) = status fd"
proof (induction ws arbitrary: fd)
  case Nil
  show ?case by simp
next
  case (Cons w ws)
  then show ?case by (cases w) (simp_all split: if_splits)
qed

lemma writes_result:
  "filter is_result (writes (copyFile_run e fd)) = [Set_result (result (copyFile e fd))]"
  by (cases e fd rule: copyFile_run_cases) (simp_all add: copyFile_def)

lemma writes_status:
  "filter is_status (writes (copyFile_run e fd)) = [Set_status TS_DONE]"
  by (cases e fd rule: copyFile_run_cases) simp_all

lemma copyFile_run_same_task:
  assumes "input_name fd' = input_name fd" and "output_name fd' = output_name fd"
    and "verify fd' = verify fd"
  shows "copyFile_run e fd' = copyFile_run e fd"
  unfolding copyFile_run_def transfer_def verification_def assms ..

lemma result_copyFile_same_task:
  assumes "input_name fd' = input_name fd" and "output_name fd' = output_name fd"
    and "verify fd' = verify fd"
  shows "result (copyFile e fd') = result (copyFile e fd)"
proof -
  have run: "copyFile_run e fd' = copyFile_run e fd"
    using assms by (rule copyFile_run_same_task)
  define x where "x = result (copyFile e fd)"
  have "filter is_result (writes (copyFile_run e fd)) = [Set_result x]"
    unfolding x_def by (rule writes_result)
  then have "result (foldl fd_store fd' (writes (copyFile_run e fd))) = x"
    by (rule result_foldl_one)
  then show ?thesis by (simp add: copyFile_def run x_def)
qed

text \<open>A record stays sound for the result of its worker when further stores reach it.\<close>

lemma filter_take_drop:
  "filter P (take k p) @ filter P (drop k p) = filter P p"
  by (metis append_take_drop_id filter_append)

lemma filter_take_none:
  "filter P p = [] \<Longrightarrow> filter P (take k p) = [] \<and> filter P (drop k p) = []"
  by (auto simp: filter_empty_conv dest: in_set_takeD in_set_dropD)

lemma append_singleton:
  "xs @ ys = [a] \<Longrightarrow> xs \<noteq> [] \<Longrightarrow> xs = [a] \<and> ys = []"
  by (cases xs) simp_all

lemma sound_land:
  assumes "sound R fd p"
  shows "sound R (foldl fd_store fd (take k p)) (drop k p)"
proof (cases "filter is_result (take k p) = []")
  case True
  with filter_take_drop [of is_result k p] have "filter is_result (drop k p) = filter is_result p"
    by simp
  with True assms show ?thesis by (simp add: sound_def result_foldl_none)
next
  case False
  with filter_take_drop [of is_result k p] have ne: "filter is_result p \<noteq> []"
    by auto
  with assms have all: "filter is_result p = [Set_result R]" and ok: "result fd = EXIT_OK"
    unfolding sound_def by blast+
  from filter_take_drop [of is_result k p] all
  have "filter is_result (take k p) @ filter is_result (drop k p) = [Set_result R]"
    by simp
  from append_singleton [OF this False]
  show ?thesis by (simp add: sound_def result_foldl_one)
qed

lemma sound_status: "sound R (fd\<lparr>status := x\<rparr>) p = sound R fd p"
  by (simp add: sound_def)


lemma sound_failed:
  assumes "sound R fd p" and "result fd \<noteq> EXIT_OK"
  shows "result fd = R" "result (foldl fd_store fd (take k p)) = R"
proof -
  from assms show r: "result fd = R" by (auto simp: sound_def)
  from assms have "filter is_result p = []" by (auto simp: sound_def)
  then have "filter is_result (take k p) = []" by (simp add: filter_take_none)
  then show "result (foldl fd_store fd (take k p)) = R"
    by (simp add: result_foldl_none r)
qed

lemma sound_result: "sound R fd p \<Longrightarrow> result fd = EXIT_OK \<or> result fd = R"
  by (auto simp: sound_def)

section \<open>The task records under the stores of both sides\<close>

lemma land_frame:
  "inumf (land k i s) = inumf s" "onumf (land k i s) = onumf s" "ifiles (land k i s) = ifiles s"
  "ofiles (land k i s) = ofiles s" "trace (land k i s) = trace s"
  "cmd_result (land k i s) = cmd_result s" "t_run (land k i s) = t_run s"
  "t_complete (land k i s) = t_complete s"
  "length (fdata (land k i s)) = length (fdata s)"
  "length (pending (land k i s)) = length (pending s)"
  by (simp_all add: land_def)

lemma land_other:
  "j \<noteq> i \<Longrightarrow> fdata (land k i s) ! j = fdata s ! j"
  "j \<noteq> i \<Longrightarrow> pending (land k i s) ! j = pending s ! j"
  by (simp_all add: land_def)

lemma land_same:
  "i < length (fdata s) \<Longrightarrow>
     fdata (land k i s) ! i = foldl fd_store (fdata s ! i) (take k (pending s ! i))"
  "i < length (pending s) \<Longrightarrow> pending (land k i s) ! i = drop k (pending s ! i)"
  by (simp_all add: land_def)

lemma land_nothing:
  assumes "pending s ! i = []"
  shows "fdata (land k i s) = fdata s" "pending (land k i s) = pending s"
proof -
  show "fdata (land k i s) = fdata s"
    by (simp add: land_def assms)
  show "pending (land k i s) = pending s"
    using list_update_id [of "pending s" i] by (simp add: land_def assms)
qed

lemma store_status_frame:
  "inumf (store_status i x s) = inumf s" "onumf (store_status i x s) = onumf s"
  "ifiles (store_status i x s) = ifiles s" "ofiles (store_status i x s) = ofiles s"
  "trace (store_status i x s) = trace s" "cmd_result (store_status i x s) = cmd_result s"
  "t_run (store_status i x s) = t_run s" "t_complete (store_status i x s) = t_complete s"
  "pending (store_status i x s) = pending s"
  "length (fdata (store_status i x s)) = length (fdata s)"
  by (simp_all add: store_status_def)

lemma store_status_other:
  "j \<noteq> i \<Longrightarrow> fdata (store_status i x s) ! j = fdata s ! j"
  by (simp add: store_status_def)

lemma store_status_same:
  "i < length (fdata s) \<Longrightarrow> fdata (store_status i x s) ! i = (fdata s ! i)\<lparr>status := x\<rparr>"
  by (simp add: store_status_def)

lemma worker_result_land: "worker_result e (land k i s) j = worker_result e s j"
proof (cases "j = i \<and> i < length (fdata s)")
  case True
  then have "fdata (land k i s) ! j = foldl fd_store (fdata s ! j) (take k (pending s ! j))"
    by (simp add: land_same)
  then show ?thesis
    unfolding worker_result_def
    by (intro result_copyFile_same_task) (simp_all add: foldl_fd_store_task)
next
  case False
  then have "fdata (land k i s) ! j = fdata s ! j"
    by (auto simp: land_def list_update_beyond)
  then show ?thesis by (simp add: worker_result_def)
qed

lemma worker_result_store_status:
  "worker_result e (store_status i x s) j = worker_result e s j"
proof (cases "j = i \<and> i < length (fdata s)")
  case True
  then have "fdata (store_status i x s) ! j = (fdata s ! j)\<lparr>status := x\<rparr>"
    by (simp add: store_status_same)
  then show ?thesis
    unfolding worker_result_def
    by (intro result_copyFile_same_task) simp_all
next
  case False
  then have "fdata (store_status i x s) ! j = fdata s ! j"
    by (auto simp: store_status_def list_update_beyond)
  then show ?thesis by (simp add: worker_result_def)
qed

lemma worker_result_cong:
  "fdata s' = fdata s \<Longrightarrow> worker_result e s' j = worker_result e s j"
  by (simp add: worker_result_def)


lemma tracked_land:
  assumes "tracked e s"
  shows "tracked e (land k i s)"
proof -
  note t = assms [unfolded tracked_def]
  from t have len: "length (fdata s) = inumf s" "length (pending s) = inumf s"
    by simp_all
  have idle: "fdata (land k i s) ! j = fdata s ! j \<and> pending (land k i s) ! j = pending s ! j"
    if "j < inumf s" "Created j \<notin> set (trace s)" for j
  proof (cases "j = i")
    case True
    from t that have "pending s ! j = []" by simp
    with True show ?thesis by (simp add: land_nothing)
  next
    case False
    then show ?thesis by (simp add: land_other)
  qed
  have busy: "sound (worker_result e s j) (fdata (land k i s) ! j) (pending (land k i s) ! j)"
    if "j < inumf s" "Created j \<in> set (trace s)" for j
  proof (cases "j = i")
    case True
    from t that have "sound (worker_result e s j) (fdata s ! j) (pending s ! j)" by simp
    with True that(1) show ?thesis by (simp add: land_same len sound_land)
  next
    case False
    with t that show ?thesis by (simp add: land_other)
  qed
  show ?thesis
    unfolding tracked_def land_frame worker_result_land
  proof (intro conjI allI impI)
    show "length (fdata s) = inumf s" "length (pending s) = inumf s" by (rule len)+
    show "cmd_result s = last_failure (trace s)" using t by simp
  next
    fix j assume "Created j \<in> set (trace s)"
    with t show "j < inumf s" "ifiles s j \<noteq> []" by simp_all
  next
    fix j assume j: "j < inumf s" "Created j \<notin> set (trace s)"
    with t idle [OF j]
    show "pending (land k i s) ! j = []" "status (fdata (land k i s) ! j) = TS_INIT"
      "result (fdata (land k i s) ! j) = EXIT_OK"
      by simp_all
  next
    fix j assume "j < inumf s" "Created j \<in> set (trace s)"
    then show "sound (worker_result e s j) (fdata (land k i s) ! j) (pending (land k i s) ! j)"
      by (rule busy)
  next
    fix j r assume "Reaped j r \<in> set (trace s)"
    with t show "Created j \<in> set (trace s)" "r = EXIT_OK \<or> r = worker_result e s j"
      by simp_all
  qed
qed

lemma tracked_store_status:
  assumes "tracked e s" and "Created i \<in> set (trace s)"
  shows "tracked e (store_status i x s)"
proof -
  note t = assms(1) [unfolded tracked_def]
  from t have len: "length (fdata s) = inumf s" "length (pending s) = inumf s" by simp_all
  from t assms(2) have i: "i < inumf s" by simp
  have idle: "fdata (store_status i x s) ! j = fdata s ! j"
    if "Created j \<notin> set (trace s)" for j
    using that assms(2) by (intro store_status_other) auto
  have busy: "sound (worker_result e s j) (fdata (store_status i x s) ! j) (pending s ! j)"
    if "j < inumf s" "Created j \<in> set (trace s)" for j
  proof (cases "j = i")
    case True
    from t that have "sound (worker_result e s j) (fdata s ! j) (pending s ! j)" by simp
    with True i show ?thesis by (simp add: store_status_same len sound_status)
  next
    case False
    with t that show ?thesis by (simp add: store_status_other)
  qed
  show ?thesis
    unfolding tracked_def store_status_frame worker_result_store_status
  proof (intro conjI allI impI)
    show "length (fdata s) = inumf s" "length (pending s) = inumf s" by (rule len)+
    show "cmd_result s = last_failure (trace s)" using t by simp
  next
    fix j assume "Created j \<in> set (trace s)"
    with t show "j < inumf s" "ifiles s j \<noteq> []" by simp_all
  next
    fix j assume j: "j < inumf s" "Created j \<notin> set (trace s)"
    with t idle [OF j(2)]
    show "pending s ! j = []" "status (fdata (store_status i x s) ! j) = TS_INIT"
      "result (fdata (store_status i x s) ! j) = EXIT_OK"
      by simp_all
  next
    fix j assume "j < inumf s" "Created j \<in> set (trace s)"
    then show "sound (worker_result e s j) (fdata (store_status i x s) ! j) (pending s ! j)"
      by (rule busy)
  next
    fix j r assume "Reaped j r \<in> set (trace s)"
    with t show "Created j \<in> set (trace s)" "r = EXIT_OK \<or> r = worker_result e s j"
      by simp_all
  qed
qed

lemma tracked_t_run: "tracked e (s\<lparr>t_run := n\<rparr>) = tracked e s"
  by (simp add: tracked_def worker_result_def)

lemma tracked_t_complete: "tracked e (s\<lparr>t_complete := b\<rparr>) = tracked e s"
  by (simp add: tracked_def worker_result_def)

section \<open>The polling loop and its aggregate\<close>

lemma failures_append: "failures (xs @ ys) = failures xs @ failures ys"
  by (induction xs rule: failures.induct) simp_all

lemma last_failure_reaped:
  "last_failure (evs @ [Reaped i r]) = (if r = EXIT_OK then last_failure evs else r)"
  by (simp add: last_failure_def failures_append)

lemma last_failure_other:
  "failures [ev] = [] \<Longrightarrow> last_failure (evs @ [ev]) = last_failure evs"
  by (simp add: last_failure_def failures_append)

lemma failures_quiet: "list_all quiet_event evs \<Longrightarrow> failures evs = []"
  by (induction evs rule: failures.induct) (simp_all add: quiet_event_def)

lemma last_failure_mem:
  "last_failure evs \<noteq> EXIT_OK \<Longrightarrow> \<exists>i. Reaped i (last_failure evs) \<in> set evs"
proof -
  have "r \<in> set (failures evs) \<Longrightarrow> \<exists>i. Reaped i r \<in> set evs" for r
    by (induction evs rule: failures.induct) (auto split: if_splits)
  moreover assume "last_failure evs \<noteq> EXIT_OK"
  then have "last_failure evs \<in> set (failures evs)"
    by (auto simp: last_failure_def split: if_splits)
  ultimately show ?thesis by blast
qed

text \<open>A read of the result of a created task keeps the records and the events in step.\<close>

lemma tracked_read:
  assumes "tracked e s" and "Created i \<in> set (trace s)"
    and "x = EXIT_OK \<or> x = worker_result e s i"
    and "c = (if x = EXIT_OK then cmd_result s else x)"
  shows "tracked e (s\<lparr>cmd_result := c, trace := trace s @ [Reaped i x]\<rparr>)"
proof -
  note t = assms(1) [unfolded tracked_def]
  let ?s = "s\<lparr>cmd_result := c, trace := trace s @ [Reaped i x]\<rparr>"
  have wr: "worker_result e ?s j = worker_result e s j" for j
    by (simp add: worker_result_def)
  have cr: "(Created j \<in> set (trace ?s)) = (Created j \<in> set (trace s))" for j
    by simp
  show ?thesis
    unfolding tracked_def wr cr
  proof (intro conjI allI impI)
    show "length (fdata ?s) = inumf ?s" "length (pending ?s) = inumf ?s" using t by simp_all
    show "cmd_result ?s = last_failure (trace ?s)"
      using t assms(4) by (simp add: last_failure_reaped)
  next
    fix j assume "Created j \<in> set (trace s)"
    with t show "j < inumf ?s" "ifiles ?s j \<noteq> []" by simp_all
  next
    fix j assume j: "j < inumf ?s" "Created j \<notin> set (trace s)"
    with t show "pending ?s ! j = []" "status (fdata ?s ! j) = TS_INIT"
      "result (fdata ?s ! j) = EXIT_OK"
      by simp_all
  next
    fix j assume "j < inumf ?s" "Created j \<in> set (trace s)"
    with t show "sound (worker_result e s j) (fdata ?s ! j) (pending ?s ! j)"
      by simp
  next
    fix j r assume "Reaped j r \<in> set (trace ?s)"
    then have "Reaped j r \<in> set (trace s) \<or> j = i \<and> r = x" by auto
    with t assms(2,3)
    show "Created j \<in> set (trace s)" "r = EXIT_OK \<or> r = worker_result e s j"
      by auto
  qed
qed

lemma tracked_check_result:
  assumes "tracked e s" and "Created i \<in> set (trace s)"
  shows "tracked e (check_result e r i s)"
proof -
  let ?s1 = "land (lands e r i 2) i s"
  have t1: "tracked e ?s1" using assms(1) by (rule tracked_land)
  have c1: "Created i \<in> set (trace ?s1)" using assms(2) by (simp add: land_frame)
  from t1 c1 have i: "i < inumf ?s1" by (simp add: tracked_def)
  show ?thesis
  proof (cases "result (fdata ?s1 ! i) = EXIT_OK")
    case True
    let ?s2 = "?s1\<lparr>trace := trace ?s1 @ [Reaped i EXIT_OK]\<rparr>"
    have "tracked e (?s1\<lparr>cmd_result := cmd_result ?s1, trace := trace ?s1 @ [Reaped i EXIT_OK]\<rparr>)"
      using t1 c1 by (rule tracked_read) simp_all
    then have "tracked e ?s2" by simp
    then have "tracked e (land (lands e r i 4) i ?s2)" by (rule tracked_land)
    then have "tracked e (store_status i TS_CHECKED (land (lands e r i 4) i ?s2))"
      by (rule tracked_store_status) (simp add: land_frame assms(2))
    with True show ?thesis by (simp add: check_result_def Let_def)
  next
    case False
    let ?s2 = "land (lands e r i 3) i ?s1"
    let ?x = "result (fdata ?s2 ! i)"
    let ?s3 = "?s2\<lparr>cmd_result := ?x, trace := trace ?s2 @ [Reaped i ?x]\<rparr>"
    from t1 c1 i have snd: "sound (worker_result e ?s1 i) (fdata ?s1 ! i) (pending ?s1 ! i)"
      and len: "i < length (fdata ?s1)"
      by (simp_all add: tracked_def)
    from sound_failed(1) [OF snd False] sound_failed(2) [OF snd False, of "lands e r i 3"] len
    have x: "?x = worker_result e ?s1 i" "result (fdata ?s1 ! i) = worker_result e ?s1 i"
      by (simp_all add: land_same)
    with False have ne: "worker_result e s i \<noteq> EXIT_OK"
      by (simp add: worker_result_land)
    have t2: "tracked e ?s2" using t1 by (rule tracked_land)
    have "tracked e ?s3"
      using t2 by (rule tracked_read) (simp_all add: land_frame assms(2) x worker_result_land ne)
    then have "tracked e (land (lands e r i 4) i ?s3)" by (rule tracked_land)
    then have "tracked e (store_status i TS_CHECKED (land (lands e r i 4) i ?s3))"
      by (rule tracked_store_status) (simp add: land_frame assms(2))
    with False show ?thesis by (simp add: check_result_def Let_def)
  qed
qed

lemma tracked_scan_step:
  assumes "tracked e s" and "i < inumf s"
  shows "tracked e (scan_step e r i s)"
proof -
  let ?s1 = "land (lands e r i 0) i s"
  let ?s2 = "land (lands e r i 1) i ?s1"
  have t1: "tracked e ?s1" using assms(1) by (rule tracked_land)
  then have t2: "tracked e ?s2" by (rule tracked_land)
  have "tracked e (check_result e r i ?s2)" if "status (fdata ?s2 ! i) = TS_DONE"
  proof -
    from t2 that assms(2) have "Created i \<in> set (trace ?s2)"
      by (auto simp: tracked_def land_frame)
    with t2 show ?thesis by (rule tracked_check_result)
  qed
  with t1 t2 show ?thesis
    by (simp add: scan_step_def Let_def tracked_t_run)
qed

text \<open>What a round of the scan leaves alone.\<close>

lemma check_result_frame:
  "inumf (check_result e r i s) = inumf s" "onumf (check_result e r i s) = onumf s"
  "ifiles (check_result e r i s) = ifiles s" "ofiles (check_result e r i s) = ofiles s"
  "t_run (check_result e r i s) = t_run s" "t_complete (check_result e r i s) = t_complete s"
  "length (fdata (check_result e r i s)) = length (fdata s)"
  "length (pending (check_result e r i s)) = length (pending s)"
  by (simp_all add: check_result_def Let_def store_status_frame land_frame)

lemma check_result_trace:
  "\<exists>x. trace (check_result e r i s) = trace s @ [Reaped i x]"
  by (simp add: check_result_def Let_def store_status_frame land_frame)

lemma scan_step_frame:
  "inumf (scan_step e r i s) = inumf s" "onumf (scan_step e r i s) = onumf s"
  "ifiles (scan_step e r i s) = ifiles s" "ofiles (scan_step e r i s) = ofiles s"
  "t_complete (scan_step e r i s) = t_complete s"
  "length (fdata (scan_step e r i s)) = length (fdata s)"
  "length (pending (scan_step e r i s)) = length (pending s)"
  "t_run s \<le> t_run (scan_step e r i s)"
  by (simp_all add: scan_step_def Let_def check_result_frame land_frame)

lemma scan_step_trace:
  "trace (scan_step e r i s) = trace s \<or> (\<exists>x. trace (scan_step e r i s) = trace s @ [Reaped i x])"
  using check_result_trace [of e r i "land (lands e r i 1) i (land (lands e r i 0) i s)"]
  by (simp add: scan_step_def Let_def land_frame)

lemma scan_step_events:
  "(Missing j \<in> set (trace (scan_step e r i s))) = (Missing j \<in> set (trace s))"
  "(Started n \<in> set (trace (scan_step e r i s))) = (Started n \<in> set (trace s))"
  "(Created j \<in> set (trace (scan_step e r i s))) = (Created j \<in> set (trace s))"
  "Reaped j x \<in> set (trace (scan_step e r i s)) \<Longrightarrow> j \<noteq> i \<Longrightarrow> Reaped j x \<in> set (trace s)"
  using scan_step_trace [of e r i s] by auto

text \<open>What a scan, and the polling loop, leave alone.\<close>

lemma scan_frame:
  "inumf (scan e r s) = inumf s" "onumf (scan e r s) = onumf s"
  "ifiles (scan e r s) = ifiles s" "ofiles (scan e r s) = ofiles s"
  "t_complete (scan e r s) = t_complete s"
  "(Missing j \<in> set (trace (scan e r s))) = (Missing j \<in> set (trace s))"
  "(Started n \<in> set (trace (scan e r s))) = (Started n \<in> set (trace s))"
  "(Created j \<in> set (trace (scan e r s))) = (Created j \<in> set (trace s))"
proof -
  let ?P = "\<lambda>t. inumf t = inumf s \<and> onumf t = onumf s \<and> ifiles t = ifiles s \<and> ofiles t = ofiles s \<and>
    t_complete t = t_complete s \<and>
    (Missing j \<in> set (trace t)) = (Missing j \<in> set (trace s)) \<and>
    (Started n \<in> set (trace t)) = (Started n \<in> set (trace s)) \<and>
    (Created j \<in> set (trace t)) = (Created j \<in> set (trace s))"
  have "?P (fold (scan_step e r) [0..<inumf s] (s\<lparr>t_run := 0\<rparr>))"
    by (rule fold_keeps) (simp_all add: scan_step_frame scan_step_events)
  then show "inumf (scan e r s) = inumf s" "onumf (scan e r s) = onumf s"
    "ifiles (scan e r s) = ifiles s" "ofiles (scan e r s) = ofiles s"
    "t_complete (scan e r s) = t_complete s"
    "(Missing j \<in> set (trace (scan e r s))) = (Missing j \<in> set (trace s))"
    "(Started n \<in> set (trace (scan e r s))) = (Started n \<in> set (trace s))"
    "(Created j \<in> set (trace (scan e r s))) = (Created j \<in> set (trace s))"
    by (simp_all add: scan_def)
qed

lemma tracked_scan:
  assumes "tracked e s"
  shows "tracked e (scan e r s)"
proof -
  let ?P = "\<lambda>t. tracked e t \<and> inumf t = inumf s"
  have "?P (fold (scan_step e r) [0..<inumf s] (s\<lparr>t_run := 0\<rparr>))"
    by (rule fold_keeps) (simp_all add: tracked_scan_step scan_step_frame tracked_t_run assms)
  then show ?thesis by (simp add: scan_def)
qed

lemma reaper_keeps:
  assumes "\<And>r s. P s \<Longrightarrow> P (scan e r s)" and "\<And>s. P s \<Longrightarrow> P (s\<lparr>t_complete := True\<rparr>)"
    and "P s"
  shows "P (reaper e n r s)"
  using assms(3) by (induction n arbitrary: r s) (simp_all add: Let_def assms(1,2))

lemma reaper_frame:
  "inumf (reaper e n r s) = inumf s" "onumf (reaper e n r s) = onumf s"
  "ifiles (reaper e n r s) = ifiles s" "ofiles (reaper e n r s) = ofiles s"
  "(Missing j \<in> set (trace (reaper e n r s))) = (Missing j \<in> set (trace s))"
  "(Started k \<in> set (trace (reaper e n r s))) = (Started k \<in> set (trace s))"
  "(Created j \<in> set (trace (reaper e n r s))) = (Created j \<in> set (trace s))"
proof -
  let ?P = "\<lambda>t. inumf t = inumf s \<and> onumf t = onumf s \<and> ifiles t = ifiles s \<and> ofiles t = ofiles s \<and>
    (Missing j \<in> set (trace t)) = (Missing j \<in> set (trace s)) \<and>
    (Started k \<in> set (trace t)) = (Started k \<in> set (trace s)) \<and>
    (Created j \<in> set (trace t)) = (Created j \<in> set (trace s))"
  have "?P (reaper e n r s)"
    by (rule reaper_keeps) (simp_all add: scan_frame)
  then show "inumf (reaper e n r s) = inumf s" "onumf (reaper e n r s) = onumf s"
    "ifiles (reaper e n r s) = ifiles s" "ofiles (reaper e n r s) = ofiles s"
    "(Missing j \<in> set (trace (reaper e n r s))) = (Missing j \<in> set (trace s))"
    "(Started k \<in> set (trace (reaper e n r s))) = (Started k \<in> set (trace s))"
    "(Created j \<in> set (trace (reaper e n r s))) = (Created j \<in> set (trace s))"
    by simp_all
qed

lemma tracked_reaper: "tracked e s \<Longrightarrow> tracked e (reaper e n r s)"
  by (rule reaper_keeps) (simp_all add: tracked_scan tracked_t_complete)

text \<open>
  The bound on the scans is a bound on how long the run is followed: a loop that has ended
  within \<open>n\<close> scans has ended, in the same state, when it is followed for longer.
\<close>

lemma reaper_done: "t_complete s \<Longrightarrow> reaper e n r s = s"
  by (cases n) simp_all

lemma reaper_longer:
  "t_complete (reaper e n r s) \<Longrightarrow> reaper e (n + m) r s = reaper e n r s"
proof (induction n arbitrary: r s)
  case 0
  then show ?case by (simp add: reaper_done)
next
  case (Suc n)
  show ?case
  proof (cases "t_complete s")
    case True
    then show ?thesis by (simp add: reaper_done)
  next
    case False
    define s2 where
      "s2 = (if t_run (scan e r s) = 0 then (scan e r s)\<lparr>t_complete := True\<rparr> else scan e r s)"
    from Suc.prems False have "t_complete (reaper e n (r + 1) s2)"
      by (simp add: Let_def s2_def)
    from Suc.IH [OF this] False show ?thesis
      by (simp add: Let_def s2_def)
  qed
qed

section \<open>A record that is never read as finished\<close>

lemma stuck_land:
  assumes "stuck s i"
  shows "stuck (land k j s) i"
proof (cases "j = i")
  case True
  from assms have p: "filter is_status (pending s ! i) = []" and l: "i < length (fdata s)"
    "i < length (pending s)"
    by (simp_all add: stuck_def)
  from p have "filter is_status (take k (pending s ! i)) = []"
    "filter is_status (drop k (pending s ! i)) = []"
    by (simp_all add: filter_take_none)
  with assms True l show ?thesis
    by (simp add: stuck_def land_frame land_same status_foldl_none)
next
  case False
  with assms show ?thesis by (simp add: stuck_def land_frame land_other)
qed

lemma stuck_store_status: "stuck s i \<Longrightarrow> j \<noteq> i \<Longrightarrow> stuck (store_status j x s) i"
  by (simp add: stuck_def store_status_frame store_status_other)

lemma stuck_check_result:
  assumes "stuck s i" and "j \<noteq> i"
  shows "stuck (check_result e r j s) i"
proof -
  have ev: "stuck (t\<lparr>trace := tr\<rparr>) i = stuck t i"
    "stuck (t\<lparr>cmd_result := c\<rparr>) i = stuck t i" for t tr c
    by (simp_all add: stuck_def)
  show ?thesis
    unfolding check_result_def Let_def
    by (auto intro!: stuck_store_status stuck_land simp: ev assms)
qed

lemma stuck_scan_step:
  assumes "stuck s i"
  shows "stuck (scan_step e r j s) i"
    and "j = i \<Longrightarrow> t_run (scan_step e r j s) = t_run s + 1"
proof -
  let ?s1 = "land (lands e r j 0) j s"
  have s1: "stuck ?s1 i" using assms by (rule stuck_land)
  have tr: "stuck (t\<lparr>t_run := n\<rparr>) i = stuck t i" for t n
    by (simp add: stuck_def)
  show "t_run (scan_step e r j s) = t_run s + 1" if "j = i"
    using s1 that by (simp add: scan_step_def Let_def stuck_def land_frame)
  show "stuck (scan_step e r j s) i"
  proof (cases "j = i")
    case True
    with s1 show ?thesis by (simp add: scan_step_def Let_def stuck_def)
  next
    case False
    have "stuck (land (lands e r j 1) j ?s1) i" using s1 by (rule stuck_land)
    then have "stuck (check_result e r j (land (lands e r j 1) j ?s1)) i"
      using False by (rule stuck_check_result)
    with s1 \<open>stuck (land (lands e r j 1) j ?s1) i\<close> show ?thesis
      by (simp add: scan_step_def Let_def tr)
  qed
qed

lemma stuck_scan_prefix:
  assumes "stuck s i"
  shows "stuck (fold (scan_step e r) [0..<k] (s\<lparr>t_run := 0\<rparr>)) i \<and>
    (i < k \<longrightarrow> 0 < t_run (fold (scan_step e r) [0..<k] (s\<lparr>t_run := 0\<rparr>)))"
proof (induction k)
  case 0
  from assms show ?case by (simp add: stuck_def)
next
  case (Suc k)
  define t where "t = fold (scan_step e r) [0..<k] (s\<lparr>t_run := 0\<rparr>)"
  from Suc have IH: "stuck t i" "i < k \<Longrightarrow> 0 < t_run t"
    by (simp_all add: t_def)
  have step: "fold (scan_step e r) [0..<Suc k] (s\<lparr>t_run := 0\<rparr>) = scan_step e r k t"
    by (simp add: t_def)
  have "0 < t_run (scan_step e r k t)" if "i < Suc k"
  proof (cases "i = k")
    case True
    with stuck_scan_step(2) [OF IH(1), of k e r] show ?thesis by simp
  next
    case False
    with that IH(2) scan_step_frame(8) [of t e r k] show ?thesis by simp
  qed
  with stuck_scan_step(1) [OF IH(1), of e r k] show ?case
    unfolding step by simp
qed

lemma stuck_scan:
  assumes "stuck s i"
  shows "stuck (scan e r s) i" "t_run (scan e r s) \<noteq> 0"
  using stuck_scan_prefix [OF assms, of e r "inumf s"] assms
  by (simp_all add: scan_def stuck_def)

text \<open>With such a record the polling loop does not end, however long it is followed.\<close>

lemma stuck_reaper:
  "stuck s i \<Longrightarrow> \<not> t_complete s \<Longrightarrow>
     stuck (reaper e n r s) i \<and> \<not> t_complete (reaper e n r s)"
proof (induction n arbitrary: r s)
  case 0
  then show ?case by simp
next
  case (Suc n)
  from Suc.prems(1) have s: "stuck (scan e r s) i" "t_run (scan e r s) \<noteq> 0"
    by (rule stuck_scan)+
  from Suc.prems(2) have "\<not> t_complete (scan e r s)" by (simp add: scan_frame)
  from Suc.IH [OF s(1) this] Suc.prems(2) s(2) show ?case
    by (simp add: Let_def)
qed

section \<open>The dispatch\<close>

lemma tracked_event:
  assumes "tracked e s" and "failures [ev] = []" and "\<And>j. ev \<noteq> Created j"
    and "\<And>j r. ev \<noteq> Reaped j r"
  shows "tracked e (s\<lparr>bnumf := b, trace := trace s @ [ev]\<rparr>)"
proof -
  note t = assms(1) [unfolded tracked_def]
  let ?s = "s\<lparr>bnumf := b, trace := trace s @ [ev]\<rparr>"
  have wr: "worker_result e ?s j = worker_result e s j" for j
    by (simp add: worker_result_def)
  have cr: "(Created j \<in> set (trace ?s)) = (Created j \<in> set (trace s))" for j
    using assms(3) [of j] by auto
  have rp: "(Reaped j r \<in> set (trace ?s)) = (Reaped j r \<in> set (trace s))" for j r
    using assms(4) [of j r] by auto
  show ?thesis
    unfolding tracked_def wr cr rp
    using t by (simp add: last_failure_other assms(2))
qed

lemma tracked_names:
  assumes "tracked e s" and "i < inumf s" and "Created i \<notin> set (trace s)"
    and "status fd = TS_INIT" and "result fd = EXIT_OK"
  shows "tracked e (s\<lparr>fdata := (fdata s)[i := fd]\<rparr>)"
proof -
  note t = assms(1) [unfolded tracked_def]
  let ?s = "s\<lparr>fdata := (fdata s)[i := fd]\<rparr>"
  from t assms(2) have len: "i < length (fdata s)" by simp
  have other: "fdata ?s ! j = fdata s ! j" if "Created j \<in> set (trace s)" for j
  proof -
    from that assms(3) have "j \<noteq> i" by auto
    then show ?thesis by simp
  qed
  have wr: "worker_result e ?s j = worker_result e s j" if "Created j \<in> set (trace s)" for j
    using other [OF that] by (simp add: worker_result_def)
  show ?thesis
    unfolding tracked_def
  proof (intro conjI allI impI)
    show "length (fdata ?s) = inumf ?s" "length (pending ?s) = inumf ?s" using t by simp_all
    show "cmd_result ?s = last_failure (trace ?s)" using t by simp
  next
    fix j assume "Created j \<in> set (trace ?s)"
    with t show "j < inumf ?s" "ifiles ?s j \<noteq> []" by simp_all
  next
    fix j assume j: "j < inumf ?s" "Created j \<notin> set (trace ?s)"
    with t have "pending s ! j = []" "status (fdata s ! j) = TS_INIT" "result (fdata s ! j) = EXIT_OK"
      by simp_all
    with len assms(4,5)
    show "pending ?s ! j = []" "status (fdata ?s ! j) = TS_INIT" "result (fdata ?s ! j) = EXIT_OK"
      by (simp_all add: nth_list_update)
  next
    fix j assume j: "j < inumf ?s" "Created j \<in> set (trace ?s)"
    then have c: "Created j \<in> set (trace s)" by simp
    from t j c have "sound (worker_result e s j) (fdata s ! j) (pending s ! j)" by simp
    then show "sound (worker_result e ?s j) (fdata ?s ! j) (pending ?s ! j)"
      by (simp only: wr [OF c] other [OF c]) simp
  next
    fix j r assume "Reaped j r \<in> set (trace ?s)"
    then have r: "Reaped j r \<in> set (trace s)" by simp
    with t have c: "Created j \<in> set (trace s)" and "r = EXIT_OK \<or> r = worker_result e s j"
      by simp_all
    then show "Created j \<in> set (trace ?s)" "r = EXIT_OK \<or> r = worker_result e ?s j"
      by (simp_all add: wr [OF c])
  qed
qed

lemma tracked_created:
  assumes "tracked e s" and "i < inumf s" and "Created i \<notin> set (trace s)"
    and "ifiles s i \<noteq> []"
  shows "tracked e (s\<lparr>pending := (pending s)[i := writes (copyFile_run (worker_env e i) (fdata s ! i))],
                      trace := trace s @ [Created i]\<rparr>)"
proof -
  note t = assms(1) [unfolded tracked_def]
  let ?W = "writes (copyFile_run (worker_env e i) (fdata s ! i))"
  let ?s = "s\<lparr>pending := (pending s)[i := ?W], trace := trace s @ [Created i]\<rparr>"
  from t assms(2) have len: "i < length (pending s)" by simp
  have wr: "worker_result e ?s j = worker_result e s j" for j
    by (simp add: worker_result_def)
  have cr: "(Created j \<in> set (trace ?s)) = (Created j \<in> set (trace s) \<or> j = i)" for j
    by auto
  have rp: "(Reaped j r \<in> set (trace ?s)) = (Reaped j r \<in> set (trace s))" for j r
    by auto
  show ?thesis
    unfolding tracked_def wr cr rp
  proof (intro conjI allI impI)
    show "length (fdata ?s) = inumf ?s" "length (pending ?s) = inumf ?s" using t by simp_all
    show "cmd_result ?s = last_failure (trace ?s)" using t by (simp add: last_failure_other)
  next
    fix j assume "Created j \<in> set (trace s) \<or> j = i"
    with t assms(2,4) show "j < inumf ?s" "ifiles ?s j \<noteq> []" by auto
  next
    fix j assume j: "j < inumf ?s" "\<not> (Created j \<in> set (trace s) \<or> j = i)"
    with t
    show "pending ?s ! j = []" "status (fdata ?s ! j) = TS_INIT" "result (fdata ?s ! j) = EXIT_OK"
      by simp_all
  next
    fix j assume j: "j < inumf ?s" "Created j \<in> set (trace s) \<or> j = i"
    show "sound (worker_result e s j) (fdata ?s ! j) (pending ?s ! j)"
    proof (cases "j = i")
      case True
      from t assms(2,3) have "result (fdata s ! i) = EXIT_OK" by simp
      with True len show ?thesis
        by (simp add: sound_def worker_result_def writes_result)
    next
      case False
      with t j show ?thesis by simp
    qed
  next
    fix j r assume "Reaped j r \<in> set (trace s)"
    with t show "Created j \<in> set (trace s) \<or> j = i" "r = EXIT_OK \<or> r = worker_result e s j"
      by simp_all
  qed
qed

lemma tracked_dispatch_step:
  assumes "tracked e s" and "i < inumf s" and "Created i \<notin> set (trace s)"
  shows "tracked e (dispatch_step e vf i s)"
proof (cases "ifiles s i = []")
  case True
  have "tracked e (s\<lparr>bnumf := bnumf s + 1, trace := trace s @ [Skipped i]\<rparr>)"
    using assms(1) by (rule tracked_event) simp_all
  with True show ?thesis by (simp add: dispatch_step_def)
next
  case False
  define fd where "fd = (fdata s ! i)
                    \<lparr>input_name := strncpy_row (ifiles s i),
                     output_name := strncpy_row (ofiles s i),
                     size_fd := sfiles s i,
                     verify := (if vf then 1 else 0)\<rparr>"
  define s1 where "s1 = s\<lparr>fdata := (fdata s)[i := fd]\<rparr>"
  from assms have init: "status (fdata s ! i) = TS_INIT" "result (fdata s ! i) = EXIT_OK"
    and len: "i < length (fdata s)"
    by (simp_all add: tracked_def)
  have t1: "tracked e s1"
    unfolding s1_def using assms by (rule tracked_names) (simp_all add: fd_def init)
  have f1: "inumf s1 = inumf s" "trace s1 = trace s" "ifiles s1 = ifiles s" "fdata s1 ! i = fd"
    using len by (simp_all add: s1_def)
  show ?thesis
  proof (cases "create_result e i = 0")
    case c: False
    have "tracked e (s1\<lparr>bnumf := bnumf s1 + 1, trace := trace s1 @ [Create_failed i (create_result e i)]\<rparr>)"
      using t1 by (rule tracked_event) simp_all
    moreover have "dispatch_step e vf i s =
        s1\<lparr>bnumf := bnumf s1 + 1, trace := trace s1 @ [Create_failed i (create_result e i)]\<rparr>"
      using False c
      by (simp add: dispatch_step_def Let_def s1_def fd_def split del: if_split cong: if_cong)
    ultimately show ?thesis by simp
  next
    case True
    let ?s2 = "s1\<lparr>pending := (pending s1)[i := writes (copyFile_run (worker_env e i) (fdata s1 ! i))],
                  trace := trace s1 @ [Created i]\<rparr>"
    have "tracked e ?s2"
      using t1 by (rule tracked_created) (simp_all add: f1 assms False)
    then have "tracked e (land (head_start e i) i ?s2)" by (rule tracked_land)
    then have "tracked e (store_status i TS_RUNNING (land (head_start e i) i ?s2))"
      by (rule tracked_store_status) (simp add: land_frame)
    moreover have "dispatch_step e vf i s = store_status i TS_RUNNING (land (head_start e i) i ?s2)"
      using False True len
      by (simp add: dispatch_step_def Let_def s1_def fd_def split del: if_split cong: if_cong)
    ultimately show ?thesis by simp
  qed
qed

lemma dispatch_step_frame:
  "inumf (dispatch_step e vf i s) = inumf s" "onumf (dispatch_step e vf i s) = onumf s"
  "ifiles (dispatch_step e vf i s) = ifiles s" "ofiles (dispatch_step e vf i s) = ofiles s"
  "t_complete (dispatch_step e vf i s) = t_complete s"
  "(Missing j \<in> set (trace (dispatch_step e vf i s))) = (Missing j \<in> set (trace s))"
  "Created j \<in> set (trace (dispatch_step e vf i s)) \<Longrightarrow> Created j \<in> set (trace s) \<or> j = i"
  by (auto simp: dispatch_step_def Let_def store_status_frame land_frame split: if_splits)

lemma dispatch_prefix:
  assumes "tracked e s" and "\<And>j. Created j \<notin> set (trace s)"
  shows "k \<le> inumf s \<Longrightarrow>
    tracked e (fold (dispatch_step e vf) [0..<k] s) \<and>
    inumf (fold (dispatch_step e vf) [0..<k] s) = inumf s \<and>
    (\<forall>j. Created j \<in> set (trace (fold (dispatch_step e vf) [0..<k] s)) \<longrightarrow> j < k)"
proof (induction k)
  case 0
  from assms show ?case by simp
next
  case (Suc k)
  define t where "t = fold (dispatch_step e vf) [0..<k] s"
  from Suc have IH: "tracked e t" "inumf t = inumf s" "\<And>j. Created j \<in> set (trace t) \<Longrightarrow> j < k"
    by (simp_all add: t_def)
  have step: "fold (dispatch_step e vf) [0..<Suc k] s = dispatch_step e vf k t"
    by (simp add: t_def)
  from IH(3) [of k] have "Created k \<notin> set (trace t)" by auto
  with IH(1) have "tracked e (dispatch_step e vf k t)"
    using Suc.prems by (intro tracked_dispatch_step) (simp_all add: IH(2))
  moreover have "j < Suc k" if "Created j \<in> set (trace (dispatch_step e vf k t))" for j
    using dispatch_step_frame(7) [OF that] IH(3) [of j] by auto
  ultimately show ?case
    unfolding step by (simp add: dispatch_step_frame IH(2))
qed

lemma dispatch_frame:
  "inumf (dispatch e vf s) = inumf s" "onumf (dispatch e vf s) = onumf s"
  "ifiles (dispatch e vf s) = ifiles s" "ofiles (dispatch e vf s) = ofiles s"
  "t_complete (dispatch e vf s) = t_complete s"
  "(Missing i \<in> set (trace (dispatch e vf s))) = (Missing i \<in> set (trace s))"
proof -
  let ?P = "\<lambda>t. inumf t = inumf s \<and> onumf t = onumf s \<and> ifiles t = ifiles s \<and> ofiles t = ofiles s \<and>
    t_complete t = t_complete s \<and> (Missing i \<in> set (trace t)) = (Missing i \<in> set (trace s))"
  have "?P (fold (dispatch_step e vf) [0..<inumf s]
              (s\<lparr>fdata := replicate (inumf s) filedata0, pending := replicate (inumf s) []\<rparr>))"
    by (rule fold_keeps) (simp_all add: dispatch_step_frame)
  then show "inumf (dispatch e vf s) = inumf s" "onumf (dispatch e vf s) = onumf s"
    "ifiles (dispatch e vf s) = ifiles s" "ofiles (dispatch e vf s) = ofiles s"
    "t_complete (dispatch e vf s) = t_complete s"
    "(Missing i \<in> set (trace (dispatch e vf s))) = (Missing i \<in> set (trace s))"
    by (simp_all add: dispatch_def)
qed

text \<open>
  After the dispatch, from a state whose events are those of the earlier phases and whose
  \<^verbatim>\<open>cmd_result\<close> is still \<^verbatim>\<open>EXIT_OK\<close>.
\<close>

lemma tracked_dispatch:
  assumes "list_all quiet_event (trace s)" and "cmd_result s = EXIT_OK"
  shows "tracked e (dispatch e vf s)"
proof -
  let ?s0 = "s\<lparr>fdata := replicate (inumf s) filedata0, pending := replicate (inumf s) []\<rparr>"
  from assms(1) have q: "Created j \<notin> set (trace s)" "Reaped j r \<notin> set (trace s)" for j r
    by (simp_all add: quiet_not_created quiet_not_reaped)
  have "tracked e ?s0"
    unfolding tracked_def
    using q assms(2) failures_quiet [OF assms(1)]
    by (simp add: filedata0_def last_failure_def)
  moreover have "Created j \<notin> set (trace ?s0)" for j using q by simp
  ultimately show ?thesis
    using dispatch_prefix [of e ?s0 "inumf s" vf] by (simp add: dispatch_def)
qed

lemma tracked_started: "tracked e s \<Longrightarrow> tracked e (started s)"
  using tracked_event [of e s "Started (int (inumf s) - int (bnumf s))" "bnumf s"]
  by (simp add: started_def)

section \<open>Whole runs\<close>

text \<open>The ways a run ends, with the state it ends in.\<close>

lemma main_cases [case_names early unequal limit polling]:
  obtains
    (early) c where "main iv e = \<lparr>exit_code = Some c, final = mstate0\<rparr>"
  | (unequal) fl where "getopt_loop (options iv) flags0 = Some fl" "argc iv \<noteq> 1" "\<not> hflag fl"
      "ivalue fl \<noteq> ovalue fl" "inumf (tokenize fl) \<noteq> onumf (tokenize fl)"
      "main iv e = \<lparr>exit_code = Some ARG_ERROR, final = tokenize fl\<rparr>"
  | (limit) fl where "getopt_loop (options iv) flags0 = Some fl" "argc iv \<noteq> 1" "\<not> hflag fl"
      "ivalue fl \<noteq> ovalue fl" "inumf (tokenize fl) = onumf (tokenize fl)"
      "adjust_limit e (validate e (tokenize fl)) = None"
      "main iv e = \<lparr>exit_code = Some READ_ERROR, final = validate e (tokenize fl)\<rparr>"
  | (polling) fl s3 F where "getopt_loop (options iv) flags0 = Some fl" "argc iv \<noteq> 1" "\<not> hflag fl"
      "ivalue fl \<noteq> ovalue fl" "inumf (tokenize fl) = onumf (tokenize fl)"
      "adjust_limit e (validate e (tokenize fl)) = Some s3"
      "F = reaper e (watch e) 0 (started (dispatch e (vflag fl) s3))"
      "main iv e = \<lparr>exit_code = (if t_complete F then Some (cmd_result F) else None), final = F\<rparr>"
proof (cases "getopt_loop (options iv) flags0")
  case None
  then show ?thesis by (intro early [of ARG_ERROR]) (simp add: main_def)
next
  case (Some fl)
  show ?thesis
  proof (cases "argc iv = 1 \<or> hflag fl \<or> ivalue fl = ovalue fl")
    case True
    with Some have "\<exists>c. main iv e = \<lparr>exit_code = Some c, final = mstate0\<rparr>"
      by (auto simp: main_def)
    then show ?thesis using early by blast
  next
    case False
    show ?thesis
    proof (cases "inumf (tokenize fl) = onumf (tokenize fl)")
      case ne: False
      with Some False show ?thesis
        by (intro unequal [of fl]) (simp_all add: main_def Let_def)
    next
      case True
      show ?thesis
      proof (cases "adjust_limit e (validate e (tokenize fl))")
        case None
        with Some False True show ?thesis
          by (intro limit [of fl]) (simp_all add: main_def Let_def)
      next
        case s3: (Some s3)
        with Some False True show ?thesis
          by (intro polling [of fl s3 "reaper e (watch e) 0 (started (dispatch e (vflag fl) s3))"])
            (simp_all add: main_def Let_def)
      qed
    qed
  qed
qed

text \<open>
  A run that gets through the adjustment of the limit goes into the polling loop: the
  tables are those the validation left, and the records and events are as described by
  \<open>tracked\<close>.
\<close>

lemma main_polling:
  assumes "adjust_limit e (validate e (tokenize fl)) = Some s3"
    and "F = reaper e (watch e) 0 (started (dispatch e (vflag fl) s3))"
  shows "tracked e F"
    and "inumf F = inumf (tokenize fl)"
    and "onumf F = onumf (tokenize fl)"
    and "ifiles F = ifiles (validate e (tokenize fl))"
    and "ofiles F = ofiles (validate e (tokenize fl))"
    and "(Missing i \<in> set (trace F)) = (Missing i \<in> set (trace (validate e (tokenize fl))))"
    and "\<exists>n. Started n \<in> set (trace F)"
proof -
  note s3 = assms(1)
  have q: "list_all quiet_event (trace s3)"
    by (intro adjust_limit_frame(7) [OF s3] validate_frame tokenize_frame)
  have c: "cmd_result s3 = EXIT_OK"
    by (simp add: adjust_limit_frame [OF s3] validate_frame tokenize_frame)
  have "tracked e (started (dispatch e (vflag fl) s3))"
    by (intro tracked_started tracked_dispatch q c)
  then show "tracked e F" unfolding assms(2) by (rule tracked_reaper)
  show "inumf F = inumf (tokenize fl)" "onumf F = onumf (tokenize fl)"
    "ifiles F = ifiles (validate e (tokenize fl))" "ofiles F = ofiles (validate e (tokenize fl))"
    "(Missing i \<in> set (trace F)) = (Missing i \<in> set (trace (validate e (tokenize fl))))"
    by (simp_all add: assms(2) reaper_frame started_frame dispatch_frame adjust_limit_frame [OF s3]
        validate_frame)
  have "Started (int (inumf (dispatch e (vflag fl) s3)) - int (bnumf (dispatch e (vflag fl) s3)))
      \<in> set (trace (started (dispatch e (vflag fl) s3)))"
    by (simp add: started_def)
  then show "\<exists>n. Started n \<in> set (trace F)"
    unfolding assms(2) reaper_frame by blast
qed

text \<open>
  What the polling loop forms is the policy of the source: the exit code behind the loop
  is the last result other than \<^verbatim>\<open>EXIT_OK\<close> that the loop read, and what it read from a
  record is \<^verbatim>\<open>EXIT_OK\<close> or the result of the worker of that task.
\<close>

lemma polling_policy:
  assumes "Started n \<in> set (trace (final (main iv e)))"
  shows "tracked e (final (main iv e))"
    and "exit_code (main iv e) = Some c \<Longrightarrow> c = last_failure (trace (final (main iv e)))"
proof -
  have "tracked e (final (main iv e)) \<and>
    (exit_code (main iv e) = Some c \<longrightarrow> c = last_failure (trace (final (main iv e))))"
  proof (cases iv e rule: main_cases)
    case (early c)
    with assms show ?thesis by (simp add: mstate0_def)
  next
    case (unequal fl)
    with assms show ?thesis by (simp add: tokenize_frame)
  next
    case (limit fl)
    have "list_all quiet_event (trace (validate e (tokenize fl)))"
      by (intro validate_frame tokenize_frame)
    with assms limit show ?thesis by (simp add: quiet_not_started)
  next
    case (polling fl s3 F)
    from main_polling(1) [OF polling(6,7)] have "tracked e F" .
    with polling(8) show ?thesis by (auto simp: tracked_def split: if_splits)
  qed
  then show "tracked e (final (main iv e))"
    and "exit_code (main iv e) = Some c \<Longrightarrow> c = last_failure (trace (final (main iv e)))"
    by simp_all
qed

text \<open>
  The comparison of the counts. A run whose two counts differ at its end has left with
  \<^verbatim>\<open>ARG_ERROR\<close> at the comparison: the two tokenizer calls are all it has done, and no task
  record exists. The counts are those \<open>get_filenames\<close> returned.
\<close>

lemma counts_differ_exit:
  assumes "inumf (final (main iv e)) \<noteq> onumf (final (main iv e))"
  shows "exit_code (main iv e) = Some ARG_ERROR \<and> fdata (final (main iv e)) = [] \<and>
    (\<exists>fl. getopt_loop (options iv) flags0 = Some fl \<and>
       inumf (final (main iv e)) = fst (get_filenames (ivalue fl) (\<lambda>i. [])) \<and>
       onumf (final (main iv e)) = fst (get_filenames (ovalue fl) (\<lambda>i. [])) \<and>
       trace (final (main iv e)) = [Tokenized (ivalue fl), Tokenized (ovalue fl)])"
proof (cases iv e rule: main_cases)
  case (early c)
  with assms show ?thesis by (simp add: mstate0_def)
next
  case (unequal fl)
  then show ?thesis by (simp add: tokenize_frame)
next
  case (limit fl)
  with assms show ?thesis by (simp add: validate_frame)
next
  case (polling fl s3 F)
  from main_polling(2,3) [OF polling(6,7)] polling(5,8) assms show ?thesis by simp
qed

text \<open>
  Claim C6 is not what the code does. The help text of the source gives the two arguments
  as lists of names, \<^verbatim>\<open>file1|file2|...\<close>, and \<^verbatim>\<open>main\<close> compares the counts of the two lists
  and leaves with \<^verbatim>\<open>ARG_ERROR\<close> when they differ. But the counts are those that
  \<open>get_filenames\<close> returns, and for a list written with delimiters that is one less than
  the number of its names. In \<^verbatim>\<open>threadcopy -i 'a|c' -o b\<close> the input list has two names and
  the output list has one; both are counted as 1, the comparison passes, the pair of
  \<^verbatim>\<open>a\<close> and \<^verbatim>\<open>b\<close> is copied, the name \<^verbatim>\<open>c\<close> stays in its row unused, and the process exits
  with 0.
\<close>

theorem unequal_lengths_accepted:
  "tokens ''a|c'' = [''a'', ''c''] \<and> tokens ''b'' = [''b''] \<and>
   ifiles (final (main \<lparr>argc = 5, options = [Opt_i ''a|c'', Opt_o ''b'']\<rparr> env_plain)) 1 = ''c'' \<and>
   ofiles (final (main \<lparr>argc = 5, options = [Opt_i ''a|c'', Opt_o ''b'']\<rparr> env_plain)) 1 = [] \<and>
   inumf (final (main \<lparr>argc = 5, options = [Opt_i ''a|c'', Opt_o ''b'']\<rparr> env_plain)) = 1 \<and>
   onumf (final (main \<lparr>argc = 5, options = [Opt_i ''a|c'', Opt_o ''b'']\<rparr> env_plain)) = 1 \<and>
   exit_code (main \<lparr>argc = 5, options = [Opt_i ''a|c'', Opt_o ''b'']\<rparr> env_plain) = Some EXIT_OK \<and>
   trace (final (main \<lparr>argc = 5, options = [Opt_i ''a|c'', Opt_o ''b'']\<rparr> env_plain)) =
     [Tokenized ''a|c'', Tokenized ''b'', Opened 0, Created 0, Started 1, Reaped 0 EXIT_OK]"
proof -
  have "tokens ''a|c'' = [''a'', ''c'']" "tokens ''b'' = [''b'']"
    by (simp_all add: tokens.simps strtok_r_def)
  then show ?thesis
    by (simp add: main_eval upt_rec worker_eval)
qed

text \<open>
  Claim C1, as the code has it. Take a run with \<open>N\<close> names counted in each list and limits
  as \<^verbatim>\<open>getrlimit\<close> reports them (the soft limit not above the hard one). If \<open>2N\<close> exceeds
  the hard limit, the process exits with \<^verbatim>\<open>READ_ERROR\<close>, the code the source passes to
  \<^verbatim>\<open>exit\<close> there; no task record exists and no thread has been created.
\<close>

theorem budget_over_hard_limit:
  assumes "inumf (final (main iv e)) = onumf (final (main iv e))"
    and "rlim_max (limits e) < 2 * inumf (final (main iv e))"
    and "rlim_cur (limits e) \<le> rlim_max (limits e)"
  shows "exit_code (main iv e) = Some READ_ERROR \<and> fdata (final (main iv e)) = [] \<and>
    (\<forall>i. Created i \<notin> set (trace (final (main iv e))))"
proof (cases iv e rule: main_cases)
  case (early c)
  with assms(2) show ?thesis by (simp add: mstate0_def)
next
  case (unequal fl)
  with assms(1) show ?thesis by simp
next
  case (limit fl)
  have "list_all quiet_event (trace (validate e (tokenize fl)))"
    by (intro validate_frame tokenize_frame)
  with limit show ?thesis
    by (simp add: validate_frame tokenize_frame quiet_not_created)
next
  case (polling fl s3 F)
  from main_polling(2) [OF polling(6,7)] polling(8)
  have n: "inumf (final (main iv e)) = inumf (tokenize fl)" by simp
  from polling(5,6) assms(2,3) n have False
    by (auto simp: adjust_limit_def Let_def validate_frame split: if_splits)
  then show ?thesis ..
qed

text \<open>The theorem on \<^verbatim>\<open>threadcopy -i a -o b\<close> under a hard limit of one descriptor.\<close>

theorem budget_over_hard_limit_witness:
  "inumf (final (main \<lparr>argc = 5, options = [Opt_i ''a'', Opt_o ''b'']\<rparr> env_tight)) = 1 \<and>
   onumf (final (main \<lparr>argc = 5, options = [Opt_i ''a'', Opt_o ''b'']\<rparr> env_tight)) = 1 \<and>
   rlim_max (limits env_tight) = 1 \<and>
   exit_code (main \<lparr>argc = 5, options = [Opt_i ''a'', Opt_o ''b'']\<rparr> env_tight) = Some READ_ERROR \<and>
   fdata (final (main \<lparr>argc = 5, options = [Opt_i ''a'', Opt_o ''b'']\<rparr> env_tight)) = []"
proof -
  let ?iv = "\<lparr>argc = 5, options = [Opt_i ''a'', Opt_o ''b'']\<rparr>"
  have n: "inumf (final (main ?iv env_tight)) = 1" "onumf (final (main ?iv env_tight)) = 1"
    by (simp_all add: main_eval0 upt_rec worker_eval)
  have l: "rlim_max (limits env_tight) = 1" "rlim_cur (limits env_tight) = 1"
    by (simp_all add: env_tight_def)
  have 1: "inumf (final (main ?iv env_tight)) = onumf (final (main ?iv env_tight))"
    by (simp add: n)
  have 2: "rlim_max (limits env_tight) < 2 * inumf (final (main ?iv env_tight))"
    by (simp add: n l)
  have 3: "rlim_cur (limits env_tight) \<le> rlim_max (limits env_tight)"
    by (simp add: l)
  from budget_over_hard_limit [OF 1 2 3] n l show ?thesis by simp
qed

text \<open>
  Claim C1 as stated fails on the exit code: in the same run the budget of two
  descriptors exceeds the hard limit of one, and the exit code is 1, not 4.
\<close>

theorem budget_exit_code_counterexample:
  "inumf (tokenize (flags0\<lparr>iflag := True, ivalue := ''a'', oflag := True, ovalue := ''b''\<rparr>)) = 1 \<and>
   rlim_max (limits env_tight) = 1 \<and>
   exit_code (main \<lparr>argc = 5, options = [Opt_i ''a'', Opt_o ''b'']\<rparr> env_tight) = Some READ_ERROR"
  by (simp add: main_eval0 upt_rec worker_eval)

text \<open>
  Claim C5, as the code has it. Take an index whose input the validation has found
  missing. Both rows of that index end empty, no thread is created for it, and the polling
  loop never reads a result for it, so it has no part in the aggregate. The pair still
  counts in the descriptor budget. So when the process exits, its exit code is 0, or the
  \<^verbatim>\<open>READ_ERROR\<close> of a budget over the hard limit, or the result of the worker of another
  task, one for which a thread was created: if the budget is within the limit and every
  such worker succeeds, the exit code is 0.
\<close>

theorem missing_input_is_skipped:
  assumes "Missing i \<in> set (trace (final (main iv e)))"
  shows "ifiles (final (main iv e)) i = [] \<and> ofiles (final (main iv e)) i = [] \<and>
    Created i \<notin> set (trace (final (main iv e))) \<and>
    (\<forall>r. Reaped i r \<notin> set (trace (final (main iv e)))) \<and>
    (\<forall>c. exit_code (main iv e) = Some c \<longrightarrow>
       c = EXIT_OK \<or>
       c = READ_ERROR \<and> rlim_max (limits e) < 2 * inumf (final (main iv e)) \<and>
         fdata (final (main iv e)) = [] \<or>
       (\<exists>j. j \<noteq> i \<and> Created j \<in> set (trace (final (main iv e))) \<and>
          c = result (copyFile (worker_env e j) (fdata (final (main iv e)) ! j))))"
proof (cases iv e rule: main_cases)
  case (early c)
  with assms show ?thesis by (simp add: mstate0_def)
next
  case (unequal fl)
  with assms show ?thesis by (simp add: tokenize_frame)
next
  case (limit fl)
  let ?F = "validate e (tokenize fl)"
  have F: "final (main iv e) = ?F" and x: "exit_code (main iv e) = Some READ_ERROR"
    using limit by simp_all
  have q: "list_all quiet_event (trace ?F)"
    by (intro validate_frame tokenize_frame)
  have "Missing i \<notin> set (trace (tokenize fl))" by (simp add: tokenize_frame)
  with assms have "i < inumf (tokenize fl)" "fopen_r (fs0 e) (ifiles (tokenize fl) i) = None"
    unfolding F by (rule validate_missing)+
  from validate_rows [OF this] have rows: "ifiles ?F i = []" "ofiles ?F i = []" .
  from limit(5,6) have "rlim_max (limits e) < 2 * inumf ?F"
    by (auto simp: adjust_limit_def Let_def validate_frame split: if_splits)
  with rows q x show ?thesis
    unfolding F
    by (simp add: quiet_not_created quiet_not_reaped validate_frame tokenize_frame)
next
  case (polling fl s3 F)
  from polling(8) have F: "final (main iv e) = F" by simp
  note mp = main_polling [OF polling(6,7)]
  have "Missing i \<notin> set (trace (tokenize fl))" by (simp add: tokenize_frame)
  moreover from assms have "Missing i \<in> set (trace (validate e (tokenize fl)))"
    by (simp add: F mp(6))
  ultimately have i: "i < inumf (tokenize fl)" "fopen_r (fs0 e) (ifiles (tokenize fl) i) = None"
    by (rule validate_missing [rotated])+
  have rows: "ifiles F i = []" "ofiles F i = []"
    using validate_rows [OF i] by (simp_all add: mp)
  note t = mp(1) [unfolded tracked_def]
  from t rows(1) have nc: "Created i \<notin> set (trace F)" by auto
  with t have nr: "Reaped i r \<notin> set (trace F)" for r by auto
  have "\<exists>j. j \<noteq> i \<and> Created j \<in> set (trace F) \<and>
      c = result (copyFile (worker_env e j) (fdata F ! j))"
    if "exit_code (main iv e) = Some c" "c \<noteq> EXIT_OK" for c
  proof -
    from that polling(8) t have "c = last_failure (trace F)"
      by (simp split: if_splits)
    with that(2) last_failure_mem [of "trace F"] obtain j where "Reaped j c \<in> set (trace F)"
      by auto
    with t that(2) have "Created j \<in> set (trace F)" "c = worker_result e F j"
      by auto
    with nc show ?thesis by (auto simp: worker_result_def)
  qed
  with rows nc nr show ?thesis unfolding F by blast
qed

text \<open>
  The theorem on \<^verbatim>\<open>threadcopy -i 'a|missing|pad' -o 'b|c|pad'\<close>: two pairs are counted, the
  input of the second does not exist.
\<close>

theorem missing_input_witness:
  "Missing 1 \<in> set (trace (final (main \<lparr>argc = 5, options = [Opt_i ''a|missing|pad'', Opt_o ''b|c|pad'']\<rparr> env_plain))) \<and>
   ifiles (final (main \<lparr>argc = 5, options = [Opt_i ''a|missing|pad'', Opt_o ''b|c|pad'']\<rparr> env_plain)) 1 = [] \<and>
   ofiles (final (main \<lparr>argc = 5, options = [Opt_i ''a|missing|pad'', Opt_o ''b|c|pad'']\<rparr> env_plain)) 1 = [] \<and>
   Created 1 \<notin> set (trace (final (main \<lparr>argc = 5, options = [Opt_i ''a|missing|pad'', Opt_o ''b|c|pad'']\<rparr> env_plain))) \<and>
   exit_code (main \<lparr>argc = 5, options = [Opt_i ''a|missing|pad'', Opt_o ''b|c|pad'']\<rparr> env_plain) = Some EXIT_OK"
proof -
  let ?iv = "\<lparr>argc = 5, options = [Opt_i ''a|missing|pad'', Opt_o ''b|c|pad'']\<rparr>"
  have tr: "trace (final (main ?iv env_plain)) =
      [Tokenized ''a|missing|pad'', Tokenized ''b|c|pad'', Opened 0, Missing 1, Created 0, Skipped 1,
       Started 1, Reaped 0 EXIT_OK]"
    by (simp add: main_eval upt_rec worker_eval)
  have x: "exit_code (main ?iv env_plain) = Some EXIT_OK"
    by (simp add: main_eval upt_rec worker_eval)
  have m: "Missing 1 \<in> set (trace (final (main ?iv env_plain)))"
    by (simp add: tr)
  from missing_input_is_skipped [OF m] m x show ?thesis
    by blast
qed

text \<open>
  Claim C5 as stated fails where the missing pair is the one that takes the budget over
  the hard limit. With a limit of three descriptors the run above counts two pairs, needs
  four descriptors and exits with 1 before any thread is created, while the valid pair on
  its own, \<^verbatim>\<open>threadcopy -i a -o b\<close>, needs two, is copied and exits with 0.
\<close>

theorem missing_input_budget_counterexample:
  "trace (final (main \<lparr>argc = 5, options = [Opt_i ''a|missing|pad'', Opt_o ''b|c|pad'']\<rparr> env_three)) =
     [Tokenized ''a|missing|pad'', Tokenized ''b|c|pad'', Opened 0, Missing 1] \<and>
   exit_code (main \<lparr>argc = 5, options = [Opt_i ''a|missing|pad'', Opt_o ''b|c|pad'']\<rparr> env_three) =
     Some READ_ERROR \<and>
   trace (final (main \<lparr>argc = 5, options = [Opt_i ''a'', Opt_o ''b'']\<rparr> env_three)) =
     [Tokenized ''a'', Tokenized ''b'', Opened 0, Created 0, Started 1, Reaped 0 EXIT_OK] \<and>
   exit_code (main \<lparr>argc = 5, options = [Opt_i ''a'', Opt_o ''b'']\<rparr> env_three) = Some EXIT_OK"
  by (simp add: main_eval upt_rec worker_eval)

text \<open>A record that is never read as finished, in the form the evaluation of a run uses.\<close>

lemma reaper_stuck_eval:
  "stuck s i \<Longrightarrow> \<not> t_complete s \<Longrightarrow> t_complete (reaper e n r s) = False"
  using stuck_reaper [of s i e n r] by simp

text \<open>
  Claim C3 is not what the code does. The polling loop forms its aggregate as the claim
  says, from the results it reads (\<open>polling_policy\<close>); what fails is the order of the
  stores to the task records, in two places.

  The worker stores its status before its result. In \<^verbatim>\<open>threadcopy -i a -o /ro/x\<close> the output
  cannot be created and the worker ends with \<^verbatim>\<open>WRITE_ERROR\<close>. Under the schedule
  \<open>env_window\<close> the polling loop reads the record after the store of \<^verbatim>\<open>TS_DONE\<close> and before
  the store of the result: it reads \<^verbatim>\<open>EXIT_OK\<close>, marks the task checked, and the process
  exits with 0 although the one task it observed has failed.

  \<^verbatim>\<open>main\<close> stores \<^verbatim>\<open>TS_RUNNING\<close> only after \<^verbatim>\<open>pthread_create\<close> has returned. In
  \<^verbatim>\<open>threadcopy -i a -o b\<close> no task fails. Under the schedule \<open>env_ahead\<close> the worker has
  stored \<^verbatim>\<open>TS_DONE\<close> before that; \<^verbatim>\<open>main\<close> overwrites it, the record stays marked running,
  and the process has no exit code however long the run is followed.
\<close>

theorem failure_read_as_ok:
  "result (copyFile (worker_env env_window 0)
     (fdata (final (main \<lparr>argc = 5, options = [Opt_i ''a'', Opt_o ''/ro/x'']\<rparr> env_window)) ! 0)) =
     WRITE_ERROR \<and>
   trace (final (main \<lparr>argc = 5, options = [Opt_i ''a'', Opt_o ''/ro/x'']\<rparr> env_window)) =
     [Tokenized ''a'', Tokenized ''/ro/x'', Opened 0, Created 0, Started 1, Reaped 0 EXIT_OK] \<and>
   exit_code (main \<lparr>argc = 5, options = [Opt_i ''a'', Opt_o ''/ro/x'']\<rparr> env_window) = Some EXIT_OK \<and>
   result (copyFile (worker_env env_ahead 0) (task ''a'' ''b'' 5 0)) = EXIT_OK \<and>
   (\<forall>n. exit_code (main \<lparr>argc = 5, options = [Opt_i ''a'', Opt_o ''b'']\<rparr> (env_ahead\<lparr>watch := n\<rparr>)) = None)"
proof -
  let ?iv = "\<lparr>argc = 5, options = [Opt_i ''a'', Opt_o ''/ro/x'']\<rparr>"
  have 1: "result (copyFile (worker_env env_window 0) (fdata (final (main ?iv env_window)) ! 0)) =
      WRITE_ERROR"
    by (simp add: main_eval upt_rec worker_eval)
  have 2: "trace (final (main ?iv env_window)) =
      [Tokenized ''a'', Tokenized ''/ro/x'', Opened 0, Created 0, Started 1, Reaped 0 EXIT_OK]"
    by (simp add: main_eval upt_rec worker_eval)
  have 3: "exit_code (main ?iv env_window) = Some EXIT_OK"
    by (simp add: main_eval upt_rec worker_eval)
  have 4: "result (copyFile (worker_env env_ahead 0) (task ''a'' ''b'' 5 0)) = EXIT_OK"
    by (simp add: env_ahead_def env_plain_def worker_eval)
  have 5: "exit_code (main \<lparr>argc = 5, options = [Opt_i ''a'', Opt_o ''b'']\<rparr> (env_ahead\<lparr>watch := n\<rparr>)) = None"
    for n
    by (simp add: main_eval0 upt_rec worker_eval reaper_stuck_eval [where i = 0] stuck_def)
  from 1 2 3 4 5 show ?thesis by blast
qed

end
